theory Spec2Isabelle
  imports Main "HOL-Library.Word" "HOL-Library.AList"
begin

section \<open>gormpool: a bounded pool of database connections\<close>

text \<open>
  A shallow embedding of \<^verbatim>\<open>gormpool/pool.go\<close>. Every Go function becomes a HOL
  function on an explicit state: the \<^verbatim>\<open>Pool\<close> struct is a record, and everything the
  pool reaches through a pointer or a reference (the \<^verbatim>\<open>*Conn\<close> objects, the two Go
  maps, the database handles, the cancellation context) lives in a store. A call either
  returns, panics, or blocks for ever.
\<close>

subsection \<open>Basic types\<close>

type_synonym u64 = "64 word"
type_synonym addr = nat       \<comment> \<open>a non-nil \<^verbatim>\<open>*Conn\<close>\<close>
type_synonym mref = nat       \<comment> \<open>a Go map value (maps are references)\<close>
type_synonym DB = nat         \<comment> \<open>a non-nil \<^verbatim>\<open>*gorm.DB\<close> handle\<close>
type_synonym time = nat       \<comment> \<open>a reading of \<^verbatim>\<open>time.Now()\<close>\<close>
type_synonym argsval = nat    \<comment> \<open>the opaque, non-nil content of \<^verbatim>\<open>Args\<close>\<close>
type_synonym funcval = nat    \<comment> \<open>a non-nil Go function value\<close>

text \<open>The package's error values, and any other error a connector's Open may return.\<close>

datatype error =
    ErrGetFromClosedPool
  | ErrExceedingMaxWaitingDuration
  | ErrSQLType
  | ErrKeepLTCapacity
  | ErrCapacity
  | ErrEmptyArgs
  | BackendError nat

text \<open>How a call ends: it returns a value, it panics (or dies with a fatal runtime error),
  or it blocks on a mutex or channel that nobody will release.\<close>

datatype 'a exec = Return 'a | Panic | Blocked

text \<open>The largest \<^verbatim>\<open>int\<close> of a 64-bit platform: \<^verbatim>\<open>make\<close> panics on a length or size
  that is not a non-negative \<^verbatim>\<open>int\<close>. The allocator's own, smaller limit is not modelled.\<close>

definition max_int :: nat where
  "max_int = 2 ^ 63 - 1"

subsection \<open>Conn and the store\<close>

record Conn =
  DB :: DB
  Key :: string
  Created :: time
  Updated :: time
  UsageCounter :: u64

text \<open>
  The store holds what is shared by reference: the Conn objects (\<open>conn_heap\<close>, with
  \<open>next_conn\<close> the next unused address), the contents of the Go maps (\<open>map_heap\<close>, as
  association lists read through \<open>map_of\<close>; \<open>next_map\<close> the next unused map), the
  handles on which \<^verbatim>\<open>Close\<close> has been called, the number of calls of the connector's
  \<^verbatim>\<open>Open\<close> made so far, and whether the channel of \<^verbatim>\<open>ctx.Done()\<close> is closed.
\<close>

record store =
  conn_heap :: "addr \<Rightarrow> Conn"
  next_conn :: addr
  map_heap :: "mref \<Rightarrow> (string \<times> addr) list"
  next_map :: mref
  closed_dbs :: "DB set"
  open_calls :: nat
  ctx_done :: bool

subsection \<open>The ordered connection set \<^verbatim>\<open>conns\<close>\<close>

record conns =
  keys :: "string list"
  conns :: mref
  csize :: u64   \<comment> \<open>the field \<^verbatim>\<open>size\<close>\<close>

definition newConns :: "store \<Rightarrow> conns \<times> store" where
  "newConns s =
     (\<lparr>keys = [], conns = next_map s, csize = 0\<rparr>,
      s\<lparr>map_heap := (map_heap s)(next_map s := []), next_map := Suc (next_map s)\<rparr>)"

text \<open>The assignment \<^verbatim>\<open>conn.Updated = time.Now()\<close>.\<close>

definition set_Updated :: "time \<Rightarrow> addr \<Rightarrow> store \<Rightarrow> store" where
  "set_Updated now conn s =
     s\<lparr>conn_heap := (conn_heap s)(conn := (conn_heap s conn)\<lparr>Updated := now\<rparr>)\<rparr>"

text \<open>\<^verbatim>\<open>conns.get\<close>: \<^verbatim>\<open>cs.keys[0]\<close> panics on an empty slice; a key that the map
  does not hold reads as a nil \<^verbatim>\<open>*Conn\<close>, and \<^verbatim>\<open>conn.UsageCounter++\<close> panics on it.\<close>

definition conns_get :: "time \<Rightarrow> conns \<Rightarrow> store \<Rightarrow> (addr \<times> conns \<times> store) exec" where
  "conns_get now cs s =
     (case keys cs of
        [] \<Rightarrow> Panic
      | key # rest \<Rightarrow>
          (case map_of (map_heap s (conns cs)) key of
             None \<Rightarrow> Panic
           | Some conn \<Rightarrow>
               Return (conn,
                 cs\<lparr>keys := rest, csize := csize cs - 1\<rparr>,
                 set_Updated now conn
                   (s\<lparr>map_heap := (map_heap s)(conns cs := AList.delete key (map_heap s (conns cs))),
                      conn_heap := (conn_heap s)(conn := (conn_heap s conn)
                        \<lparr>UsageCounter := UsageCounter (conn_heap s conn) + 1\<rparr>)\<rparr>))))"

definition conns_put :: "time \<Rightarrow> addr \<Rightarrow> conns \<Rightarrow> store \<Rightarrow> conns \<times> store" where
  "conns_put now conn cs s =
     (let key = Key (conn_heap s conn) in
      (cs\<lparr>keys := keys cs @ [key], csize := csize cs + 1\<rparr>,
       set_Updated now conn
         (s\<lparr>map_heap := (map_heap s)(conns cs := AList.update key conn (map_heap s (conns cs)))\<rparr>)))"

text \<open>The loop of \<^verbatim>\<open>conns.deleteByKey\<close> over \<^verbatim>\<open>cs.keys\<close>: a key other than the
  one to delete is appended to the new slice; at the key itself the Conn found in the map
  gets a new \<^verbatim>\<open>Updated\<close>, and a nil Conn there panics.\<close>

fun deleteByKey_loop ::
  "time \<Rightarrow> mref \<Rightarrow> string \<Rightarrow> string list \<Rightarrow> string list \<Rightarrow> store \<Rightarrow> (string list \<times> store) exec" where
  "deleteByKey_loop now m key [] ks s = Return (ks, s)"
| "deleteByKey_loop now m key (val # vals) ks s =
     (if val \<noteq> key then deleteByKey_loop now m key vals (ks @ [val]) s
      else (case map_of (map_heap s m) val of
              None \<Rightarrow> Panic
            | Some conn \<Rightarrow>
                deleteByKey_loop now m key vals ks (set_Updated now conn s)))"

text \<open>\<^verbatim>\<open>make([]string, cs.size-1)\<close> is a slice of \<^verbatim>\<open>cs.size-1\<close> empty strings (the
  subtraction wraps at size 0, and \<^verbatim>\<open>make\<close> panics on the result); the loop appends
  behind them.\<close>

definition conns_deleteByKey :: "time \<Rightarrow> string \<Rightarrow> conns \<Rightarrow> store \<Rightarrow> (conns \<times> store) exec" where
  "conns_deleteByKey now key cs s =
     (if unat (csize cs - 1) > max_int then Panic
      else (case deleteByKey_loop now (conns cs) key (keys cs)
                   (replicate (unat (csize cs - 1)) []) s of
              Panic \<Rightarrow> Panic
            | Blocked \<Rightarrow> Blocked
            | Return (ks, s') \<Rightarrow>
                Return (cs\<lparr>keys := ks, csize := csize cs - 1\<rparr>,
                        s'\<lparr>map_heap := (map_heap s')(conns cs := AList.delete key (map_heap s' (conns cs)))\<rparr>)))"

text \<open>\<^verbatim>\<open>conns.close\<close>: \<^verbatim>\<open>DB.Close()\<close> on every Conn of the map, then every key of
  \<^verbatim>\<open>cs.keys\<close> is deleted from the map. Neither \<^verbatim>\<open>cs.keys\<close> nor \<^verbatim>\<open>cs.size\<close> is
  assigned.\<close>

definition conns_close :: "conns \<Rightarrow> store \<Rightarrow> conns \<times> store" where
  "conns_close cs s =
     (let s1 = s\<lparr>closed_dbs := closed_dbs s \<union>
                  set (map (\<lambda>kv. DB (conn_heap s (snd kv))) (AList.clearjunk (map_heap s (conns cs))))\<rparr>
      in (cs, s1\<lparr>map_heap := (map_heap s1)(conns cs := fold AList.delete (keys cs) (map_heap s1 (conns cs)))\<rparr>))"

subsection \<open>Options and their validation\<close>

text \<open>
  Modelled from the spec: the package \<^verbatim>\<open>godbpool\<close> that declares \<^verbatim>\<open>SQLType\<close> and its
  four constants, and the connector packages with their \<^verbatim>\<open>New\<close>, are not part of the
  source at hand. The backend kind is the closed set of four kinds, \<open>OtherSQLType\<close>
  standing for every other value of the type; a connector is built from the opaque
  \<^verbatim>\<open>Args\<close> without inspecting it, so building one never fails.
\<close>

datatype SQLType = MySQL | PostgreSQL | SQLite3 | SQLServer | OtherSQLType nat

datatype Connector =
    my_New "argsval option"
  | postgre_New "argsval option"
  | sqlite_New "argsval option"
  | mssql_New "argsval option"

record Options =
  Type :: SQLType
  Args :: "argsval option"        \<comment> \<open>\<open>None\<close> is the nil interface\<close>
  KeyFunc :: "funcval option"
  KeepConn :: u64
  Capacity :: u64
  MaxWaitDuration :: u64
  connector :: "Connector option"

text \<open>\<^verbatim>\<open>Options.validate\<close> assigns \<^verbatim>\<open>o.connector\<close> in the switch and returns the error
  (\<open>None\<close> is nil); the options as it leaves them are the first component.\<close>

definition validate :: "Options \<Rightarrow> Options \<times> error option" where
  "validate opt =
     (case (case Type opt of
              MySQL \<Rightarrow> Some (my_New (Args opt))
            | PostgreSQL \<Rightarrow> Some (postgre_New (Args opt))
            | SQLite3 \<Rightarrow> Some (sqlite_New (Args opt))
            | SQLServer \<Rightarrow> Some (mssql_New (Args opt))
            | OtherSQLType _ \<Rightarrow> None) of
        None \<Rightarrow> (opt, Some ErrSQLType)
      | Some c \<Rightarrow>
          (let o' = opt\<lparr>connector := Some c\<rparr> in
           if Args o' = None then (o', Some ErrEmptyArgs)
           else if Capacity o' = 0 then (o', Some ErrCapacity)
           else if KeepConn o' > Capacity o' then (o', Some ErrKeepLTCapacity)
           else (o', None)))"

subsection \<open>The pool\<close>

text \<open>
  \<open>mu\<close> is true while the mutex is locked; \<open>ch\<close> is the number of elements buffered
  in the channel, whose capacity is \<open>capacity\<close>. The context \<^verbatim>\<open>ctx\<close> is not nil, and
  whether its \<^verbatim>\<open>Done\<close> channel is closed is the store's \<open>ctx_done\<close>. The two
  \<^verbatim>\<open>*conns\<close> are reachable from the pool only and are held by value. A
  \<^verbatim>\<open>time.Duration\<close> is a 64-bit word.
\<close>

record Pool =
  pType :: SQLType
  pArgs :: "argsval option"
  keyFunc :: "funcval option"
  pconnector :: "Connector option"
  keepConn :: u64
  capacity :: u64
  maxWaitDuration :: u64
  mu :: bool
  idleConn :: conns
  busyConn :: conns
  closed :: bool
  ch :: nat
  currentWaitCount :: u64
  totalWaitCount :: u64
  waitDuration :: u64
  droppedGetCount :: u64

text \<open>
  What the world outside the pool answers during one call: the result of the connector's
  \<^verbatim>\<open>Open\<close>, the string of a new UUID, the result of the key function, the clock, which
  case of the waiting \<^verbatim>\<open>select\<close> fires first, and the time waited until then.
\<close>

datatype wake_event = CtxFired | SlotFreed | TimerFired

record env =
  Open_result :: "error + DB"
  uuid_String :: string
  keyFunc_result :: string
  Now :: time
  select_wake :: wake_event
  Since_start :: u64

definition initConn :: "env \<Rightarrow> Pool \<Rightarrow> store \<Rightarrow> (error option \<times> Pool \<times> store) exec" where
  "initConn e p s =
     (let s0 = s\<lparr>open_calls := Suc (open_calls s)\<rparr> in
      case Open_result e of
        Inl err \<Rightarrow> Return (Some err, p, s0)
      | Inr db \<Rightarrow>
          (let key = (case keyFunc p of
                        None \<Rightarrow> filter (\<lambda>c. c \<noteq> CHR ''-'') (uuid_String e)
                      | Some f \<Rightarrow> keyFunc_result e);
               conn = next_conn s0;
               s1 = s0\<lparr>conn_heap := (conn_heap s0)(conn :=
                          \<lparr>DB = db, Key = key, Created = Now e, Updated = Now e, UsageCounter = 0\<rparr>),
                        next_conn := Suc conn\<rparr>
           in if unat (capacity p) \<le> ch p then Blocked
              else (case conns_put (Now e) conn (idleConn p) s1 of
                      (idle, s2) \<Rightarrow> Return (None, p\<lparr>ch := Suc (ch p), idleConn := idle\<rparr>, s2))))"

definition checkArgs :: "env \<Rightarrow> store \<Rightarrow> error option \<times> store" where
  "checkArgs e s =
     (let s0 = s\<lparr>open_calls := Suc (open_calls s)\<rparr> in
      case Open_result e of
        Inl err \<Rightarrow> (Some err, s0)
      | Inr db \<Rightarrow> (None, s0\<lparr>closed_dbs := insert db (closed_dbs s0)\<rparr>))"

text \<open>\<^verbatim>\<open>Pool.get\<close>: take the head of the idle set and put it into the busy set.\<close>

definition Pool_get :: "time \<Rightarrow> Pool \<Rightarrow> store \<Rightarrow> (addr \<times> Pool \<times> store) exec" where
  "Pool_get now p s =
     (case conns_get now (idleConn p) s of
        Panic \<Rightarrow> Panic
      | Blocked \<Rightarrow> Blocked
      | Return (conn, idle, s1) \<Rightarrow>
          (case conns_put now conn (busyConn p) s1 of
             (busy, s2) \<Rightarrow> Return (conn, p\<lparr>idleConn := idle, busyConn := busy\<rparr>, s2)))"

subsection \<open>Construction\<close>

text \<open>The warm-up loop of \<^verbatim>\<open>NewPool\<close>, \<^verbatim>\<open>for i := uint64(0); i < p.keepConn; i++\<close>,
  with the bound \<open>n\<close> read once (no step of the loop assigns \<^verbatim>\<open>keepConn\<close>); the
  \<open>i\<close>-th call of \<^verbatim>\<open>initConn\<close> gets the answers \<open>es i\<close>.\<close>

function warm_loop ::
  "(nat \<Rightarrow> env) \<Rightarrow> nat \<Rightarrow> nat \<Rightarrow> Pool \<Rightarrow> store \<Rightarrow> (error option \<times> Pool \<times> store) exec" where
  "warm_loop es n i p s =
     (if i < n then
        (case initConn (es i) p s of
           Panic \<Rightarrow> Panic
         | Blocked \<Rightarrow> Blocked
         | Return (Some err, p', s') \<Rightarrow> Return (Some err, p', s')
         | Return (None, p', s') \<Rightarrow> warm_loop es n (Suc i) p' s')
      else Return (None, p, s))"
  by pat_completeness auto
termination
  by (relation "measure (\<lambda>(es, n, i, p, s). n - i)") auto

declare warm_loop.simps [simp del]

text \<open>The struct literal \<^verbatim>\<open>&Pool{...}\<close> of \<^verbatim>\<open>NewPool\<close>, with an empty channel.\<close>

definition Pool_literal :: "Options \<Rightarrow> conns \<Rightarrow> conns \<Rightarrow> Pool" where
  "Pool_literal opts idle busy =
     \<lparr>pType = Type opts, pArgs = Args opts, keyFunc = KeyFunc opts,
      pconnector = connector opts, keepConn = KeepConn opts,
      capacity = Capacity opts, maxWaitDuration = MaxWaitDuration opts,
      mu = False, idleConn = idle, busyConn = busy, closed = False, ch = 0,
      currentWaitCount = 0, totalWaitCount = 0, waitDuration = 0,
      droppedGetCount = 0\<rparr>"

text \<open>
  \<^verbatim>\<open>NewPool\<close> returns the pool or the error, and the model adds whether the goroutine
  that looks at \<^verbatim>\<open>ctx.Done()\<close> has been started. \<^verbatim>\<open>make(chan struct{}, opts.Capacity)\<close>
  panics on a capacity that is no \<^verbatim>\<open>int\<close>. With \<^verbatim>\<open>keepConn == 0\<close> the function
  returns from inside the \<^verbatim>\<open>if\<close>, before the \<^verbatim>\<open>go\<close> statement.
\<close>

definition NewPool ::
  "(nat \<Rightarrow> env) \<Rightarrow> Options \<Rightarrow> store \<Rightarrow> ((error + Pool \<times> bool) \<times> store) exec" where
  "NewPool es opts s =
     (case validate opts of
        (opts', Some err) \<Rightarrow> Return (Inl err, s)
      | (opts', None) \<Rightarrow>
          (case newConns s of (idle, s1) \<Rightarrow>
           (case newConns s1 of (busy, s2) \<Rightarrow>
            if unat (Capacity opts') > max_int then Panic
            else
              (let p = Pool_literal opts' idle busy
               in if keepConn p = 0 then
                    (case checkArgs (es 0) s2 of
                       (Some err, s3) \<Rightarrow> Return (Inl err, s3)
                     | (None, s3) \<Rightarrow> Return (Inr (p, False), s3))
                  else
                    (case warm_loop es (unat (keepConn p)) 0 p s2 of
                       Panic \<Rightarrow> Panic
                     | Blocked \<Rightarrow> Blocked
                     | Return (Some err, p', s3) \<Rightarrow> Return (Inl err, s3)
                     | Return (None, p', s3) \<Rightarrow> Return (Inr (p', True), s3))))))"

subsection \<open>Get\<close>

text \<open>
  \<^verbatim>\<open>Pool.Get\<close> up to the point where it either returns or starts to wait, in three
  parts: the case \<^verbatim>\<open><-p.ctx.Done()\<close> of the first \<^verbatim>\<open>select\<close>, its \<^verbatim>\<open>default\<close> case,
  and the \<^verbatim>\<open>select\<close> that chooses between them. Locking a locked mutex blocks; the
  update \<open>mu := False\<close> at a return is the \<^verbatim>\<open>Unlock\<close>. The return after a failed
  \<^verbatim>\<open>initConn\<close> has no \<^verbatim>\<open>Unlock\<close>: the mutex stays locked. A receive from the empty
  channel, and a send to the full one, block.
\<close>

datatype get_progress = Done "error + addr" | Waiting

definition Get_done :: "Pool \<Rightarrow> store \<Rightarrow> (get_progress \<times> Pool \<times> store) exec" where
  "Get_done p s =
     (if mu p then Blocked
      else Return (Done (Inl ErrGetFromClosedPool),
                   p\<lparr>droppedGetCount := droppedGetCount p + 1, mu := False\<rparr>, s))"

definition Get_default :: "env \<Rightarrow> Pool \<Rightarrow> store \<Rightarrow> (get_progress \<times> Pool \<times> store) exec" where
  "Get_default e p s =
     (if mu p then Blocked
      else if closed p then
        Return (Done (Inl ErrGetFromClosedPool),
                p\<lparr>droppedGetCount := droppedGetCount p + 1, mu := False\<rparr>, s)
      else if csize (idleConn p) > 0 then
        (case Pool_get (Now e) p s of
           Panic \<Rightarrow> Panic
         | Blocked \<Rightarrow> Blocked
         | Return (conn, p1, s1) \<Rightarrow>
             if ch p1 = 0 then Blocked
             else Return (Done (Inr conn), p1\<lparr>ch := ch p1 - 1, mu := False\<rparr>, s1))
      else if csize (busyConn p) < capacity p then
        (case initConn e p s of
           Panic \<Rightarrow> Panic
         | Blocked \<Rightarrow> Blocked
         | Return (Some err, p1, s1) \<Rightarrow> Return (Done (Inl err), p1\<lparr>mu := True\<rparr>, s1)
         | Return (None, p1, s1) \<Rightarrow>
             (case Pool_get (Now e) p1 s1 of
                Panic \<Rightarrow> Panic
              | Blocked \<Rightarrow> Blocked
              | Return (conn, p2, s2) \<Rightarrow>
                  if ch p2 = 0 then Blocked
                  else Return (Done (Inr conn), p2\<lparr>ch := ch p2 - 1, mu := False\<rparr>, s2)))
      else
        Return (Waiting,
                p\<lparr>currentWaitCount := currentWaitCount p + 1,
                  totalWaitCount := totalWaitCount p + 1, mu := False\<rparr>, s))"

definition Get_enter :: "env \<Rightarrow> Pool \<Rightarrow> store \<Rightarrow> (get_progress \<times> Pool \<times> store) exec" where
  "Get_enter e p s = (if ctx_done s then Get_done p s else Get_default e p s)"

text \<open>
  The waiting \<^verbatim>\<open>select\<close>, entered with the mutex released, in two parts. \<open>Get_select\<close>
  is the choice: \<open>select_wake e\<close> names the case that is taken, the channel's case
  receives one element, and a case that cannot be taken in this state (the context is not
  done, the channel is empty) leaves the caller waiting. \<open>Get_resume\<close> is the body of
  the case taken. The context's case calls \<^verbatim>\<open>Unlock\<close> on a mutex this caller does not
  hold: a fatal error when the mutex is free.
\<close>

definition Get_select :: "env \<Rightarrow> Pool \<Rightarrow> store \<Rightarrow> (Pool \<times> store) exec" where
  "Get_select e p s =
     (case select_wake e of
        CtxFired \<Rightarrow> if ctx_done s then Return (p, s) else Blocked
      | SlotFreed \<Rightarrow> if ch p = 0 then Blocked else Return (p\<lparr>ch := ch p - 1\<rparr>, s)
      | TimerFired \<Rightarrow> Return (p, s))"

definition Get_resume :: "env \<Rightarrow> Pool \<Rightarrow> store \<Rightarrow> ((error + addr) \<times> Pool \<times> store) exec" where
  "Get_resume e p s =
     (case select_wake e of
        CtxFired \<Rightarrow>
          if mu p then Return (Inl ErrGetFromClosedPool, p\<lparr>mu := False\<rparr>, s)
          else Panic
      | SlotFreed \<Rightarrow>
          if mu p then Blocked
          else
            (case Pool_get (Now e) p s of
               Panic \<Rightarrow> Panic
             | Blocked \<Rightarrow> Blocked
             | Return (conn, p1, s1) \<Rightarrow>
                 Return (Inr conn,
                         p1\<lparr>waitDuration := waitDuration p1 + Since_start e,
                            currentWaitCount := currentWaitCount p1 - 1, mu := False\<rparr>, s1))
      | TimerFired \<Rightarrow>
          if mu p then Blocked
          else Return (Inl ErrExceedingMaxWaitingDuration,
                       p\<lparr>waitDuration := waitDuration p + Since_start e,
                         droppedGetCount := droppedGetCount p + 1,
                         currentWaitCount := currentWaitCount p - 1, mu := False\<rparr>, s))"

definition Get_wake :: "env \<Rightarrow> Pool \<Rightarrow> store \<Rightarrow> ((error + addr) \<times> Pool \<times> store) exec" where
  "Get_wake e p s =
     (case Get_select e p s of
        Panic \<Rightarrow> Panic
      | Blocked \<Rightarrow> Blocked
      | Return (p1, s1) \<Rightarrow> Get_resume e p1 s1)"

text \<open>A call of \<^verbatim>\<open>Get\<close> that no other call interleaves with.\<close>

definition Get :: "env \<Rightarrow> Pool \<Rightarrow> store \<Rightarrow> ((error + addr) \<times> Pool \<times> store) exec" where
  "Get e p s =
     (case Get_enter e p s of
        Panic \<Rightarrow> Panic
      | Blocked \<Rightarrow> Blocked
      | Return (Done r, p1, s1) \<Rightarrow> Return (r, p1, s1)
      | Return (Waiting, p1, s1) \<Rightarrow> Get_wake e p1 s1)"

text \<open>
  The locked section of the \<^verbatim>\<open>default\<close> case that opens a connection, in the three
  parts another caller can come between once the mutex has been taken from its holder (the
  context's case of the waiting \<^verbatim>\<open>select\<close> unlocks a mutex it does not hold).
  \<open>Get_until_Open\<close> runs the \<^verbatim>\<open>default\<close> case until it returns, waits, or, with the
  mutex locked, calls the connector's \<^verbatim>\<open>Open\<close> (result \<open>None\<close>). \<open>Get_after_Open\<close>
  goes on from the return of \<^verbatim>\<open>Open\<close>, without looking at the mutex, to the return of
  the error or to the receive from the channel. \<open>Unlock\<close> is \<^verbatim>\<open>p.mu.Unlock()\<close>, a
  fatal error on a mutex that is not locked.
\<close>

definition Get_until_Open ::
  "env \<Rightarrow> Pool \<Rightarrow> store \<Rightarrow> (get_progress option \<times> Pool \<times> store) exec" where
  "Get_until_Open e p s =
     (if \<not> mu p \<and> \<not> closed p \<and> \<not> csize (idleConn p) > 0 \<and> csize (busyConn p) < capacity p
      then Return (None, p\<lparr>mu := True\<rparr>, s)
      else (case Get_default e p s of
              Panic \<Rightarrow> Panic
            | Blocked \<Rightarrow> Blocked
            | Return (r, p1, s1) \<Rightarrow> Return (Some r, p1, s1)))"

definition Get_after_Open ::
  "env \<Rightarrow> Pool \<Rightarrow> store \<Rightarrow> ((error + addr) \<times> Pool \<times> store) exec" where
  "Get_after_Open e p s =
     (case initConn e p s of
        Panic \<Rightarrow> Panic
      | Blocked \<Rightarrow> Blocked
      | Return (Some err, p1, s1) \<Rightarrow> Return (Inl err, p1, s1)
      | Return (None, p1, s1) \<Rightarrow>
          (case Pool_get (Now e) p1 s1 of
             Panic \<Rightarrow> Panic
           | Blocked \<Rightarrow> Blocked
           | Return (conn, p2, s2) \<Rightarrow>
               if ch p2 = 0 then Blocked
               else Return (Inr conn, p2\<lparr>ch := ch p2 - 1\<rparr>, s2)))"

definition Unlock :: "Pool \<Rightarrow> store \<Rightarrow> (Pool \<times> store) exec" where
  "Unlock p s = (if mu p then Return (p\<lparr>mu := False\<rparr>, s) else Panic)"

subsection \<open>Put, Close, Status\<close>

text \<open>\<^verbatim>\<open>Pool.Put\<close> has no result. \<open>conn\<close> is not nil (a nil one panics at
  \<^verbatim>\<open>conn.Key\<close>).\<close>

definition Put :: "time \<Rightarrow> addr \<Rightarrow> Pool \<Rightarrow> store \<Rightarrow> (Pool \<times> store) exec" where
  "Put now conn p s =
     (if mu p then Blocked
      else
        (case conns_deleteByKey now (Key (conn_heap s conn)) (busyConn p) s of
           Panic \<Rightarrow> Panic
         | Blocked \<Rightarrow> Blocked
         | Return (busy, s1) \<Rightarrow>
             if csize (idleConn p) < keepConn p \<and> \<not> closed p then
               (case conns_put now conn (idleConn p) s1 of
                  (idle, s2) \<Rightarrow>
                    if unat (capacity p) \<le> ch p then Blocked
                    else Return (p\<lparr>busyConn := busy, idleConn := idle, ch := Suc (ch p),
                                   mu := False\<rparr>, s2))
             else
               Return (p\<lparr>busyConn := busy, mu := False\<rparr>,
                       s1\<lparr>closed_dbs := insert (DB (conn_heap s1 conn)) (closed_dbs s1)\<rparr>)))"

definition Close :: "Pool \<Rightarrow> store \<Rightarrow> (Pool \<times> store) exec" where
  "Close p s =
     (if mu p then Blocked
      else (case conns_close (idleConn p) s of
              (idle, s1) \<Rightarrow> Return (p\<lparr>closed := True, idleConn := idle, mu := False\<rparr>, s1)))"

record ConnsState =
  Size :: u64
  Conns :: mref

record PoolState =
  IdleConnsState :: ConnsState
  BusyConnsState :: ConnsState
  psCapacity :: u64
  psSize :: u64
  Closed :: bool
  TotalWaitingDuration :: u64
  CurrentWaitCount :: u64
  TotalWaitCount :: u64
  DroppedGetCount :: u64

text \<open>The struct literal of \<^verbatim>\<open>Pool.Status\<close>: the two \<^verbatim>\<open>Conns\<close> fields are assigned
  the pool's own maps. A Go map is a reference, so the state returned and the pool share
  them.\<close>

definition snapshot :: "Pool \<Rightarrow> PoolState" where
  "snapshot p =
     \<lparr>IdleConnsState = \<lparr>Size = csize (idleConn p), Conns = conns (idleConn p)\<rparr>,
      BusyConnsState = \<lparr>Size = csize (busyConn p), Conns = conns (busyConn p)\<rparr>,
      psCapacity = capacity p,
      psSize = csize (busyConn p) + csize (idleConn p),
      Closed = closed p,
      TotalWaitingDuration = waitDuration p,
      CurrentWaitCount = currentWaitCount p,
      TotalWaitCount = totalWaitCount p,
      DroppedGetCount = droppedGetCount p\<rparr>"

definition Status :: "Pool \<Rightarrow> store \<Rightarrow> (PoolState \<times> Pool \<times> store) exec" where
  "Status p s = (if mu p then Blocked else Return (snapshot p, p\<lparr>mu := False\<rparr>, s))"


subsection \<open>The goroutine of \<^verbatim>\<open>NewPool\<close>, and histories of calls\<close>

text \<open>The body of the goroutine is one \<^verbatim>\<open>select\<close> with a \<^verbatim>\<open>default\<close> case: it calls
  \<^verbatim>\<open>Close\<close> if the context is done when it runs, and ends in either case.\<close>

definition watcher :: "Pool \<Rightarrow> store \<Rightarrow> (Pool \<times> store) exec" where
  "watcher p s = (if ctx_done s then Close p s else Return (p, s))"

text \<open>
  A history is a list of steps, taken by any callers in any order: whole calls; the parts
  of a \<^verbatim>\<open>Get\<close> that other calls can come between (the \<^verbatim>\<open>default\<close> case entered
  after a look at a context that was not yet done, the choice of the waiting
  \<^verbatim>\<open>select\<close>, the body of the case chosen, and the three parts of the section that
  opens a connection); the cancellation of the context; and the run of the goroutine.
  A step is \<open>whole\<close> when it is a locked section from its \<^verbatim>\<open>Lock\<close> to its end.
\<close>

datatype call =
    CallGet env
  | CallGetDefault env
  | CallGetSelect env
  | CallGetResume env
  | CallGetUntilOpen env
  | CallGetAfterOpen env
  | CallUnlock
  | CallPut time addr
  | CallClose
  | CallStatus
  | Cancel
  | RunWatcher

fun drop_result :: "('a \<times> Pool \<times> store) exec \<Rightarrow> (Pool \<times> store) exec" where
  "drop_result (Return (r, p, s)) = Return (p, s)"
| "drop_result Panic = Panic"
| "drop_result Blocked = Blocked"

fun step :: "call \<Rightarrow> Pool \<Rightarrow> store \<Rightarrow> (Pool \<times> store) exec" where
  "step (CallGet e) p s = drop_result (Get e p s)"
| "step (CallGetDefault e) p s = drop_result (Get_default e p s)"
| "step (CallGetSelect e) p s = Get_select e p s"
| "step (CallGetResume e) p s = drop_result (Get_resume e p s)"
| "step (CallGetUntilOpen e) p s = drop_result (Get_until_Open e p s)"
| "step (CallGetAfterOpen e) p s = drop_result (Get_after_Open e p s)"
| "step CallUnlock p s = Unlock p s"
| "step (CallPut now conn) p s = Put now conn p s"
| "step CallClose p s = Close p s"
| "step CallStatus p s = drop_result (Status p s)"
| "step Cancel p s = Return (p, s\<lparr>ctx_done := True\<rparr>)"
| "step RunWatcher p s = watcher p s"

fun run :: "call list \<Rightarrow> Pool \<Rightarrow> store \<Rightarrow> (Pool \<times> store) exec" where
  "run [] p s = Return (p, s)"
| "run (c # cs) p s =
     (case step c p s of
        Panic \<Rightarrow> Panic
      | Blocked \<Rightarrow> Blocked
      | Return (p', s') \<Rightarrow> run cs p' s')"

fun whole :: "call \<Rightarrow> bool" where
  "whole (CallGetUntilOpen e) = False"
| "whole (CallGetAfterOpen e) = False"
| "whole CallUnlock = False"
| "whole c = True"

text \<open>What a call returned, and what the two sets look like after a history: keys, size
  field and map of the idle set and of the busy set, the closed flag and the channel.\<close>

definition result_of :: "('a \<times> Pool \<times> store) exec \<Rightarrow> 'a option" where
  "result_of x = (case x of Return (r, p, s) \<Rightarrow> Some r | Panic \<Rightarrow> None | Blocked \<Rightarrow> None)"

definition sets_of ::
  "(Pool \<times> store) exec \<Rightarrow>
   ((string list \<times> u64 \<times> (string \<times> addr) list) \<times>
    (string list \<times> u64 \<times> (string \<times> addr) list) \<times> bool \<times> nat) option" where
  "sets_of x =
     (case x of
        Return (p, s) \<Rightarrow>
          Some ((keys (idleConn p), csize (idleConn p), map_heap s (conns (idleConn p))),
                (keys (busyConn p), csize (busyConn p), map_heap s (conns (busyConn p))),
                closed p, ch p)
      | Panic \<Rightarrow> None
      | Blocked \<Rightarrow> None)"

subsection \<open>The sizes the pool accounts for\<close>

text \<open>The sum of the two size fields, and what every pool built and used through the
  operations satisfies: the sum is within the capacity, and the idle set's size field
  is the length of its key slice.\<close>

definition total_size :: "Pool \<Rightarrow> nat" where
  "total_size p = unat (csize (idleConn p)) + unat (csize (busyConn p))"

definition sizes_ok :: "Pool \<Rightarrow> bool" where
  "sizes_ok p \<longleftrightarrow>
     total_size p \<le> unat (capacity p) \<and> length (keys (idleConn p)) = unat (csize (idleConn p))"

subsection \<open>Concrete pools\<close>

text \<open>
  An empty store, a world whose \<^verbatim>\<open>Open\<close> always succeeds, and options with
  \<^verbatim>\<open>KeepConn = 1\<close> and \<^verbatim>\<open>Capacity = 2\<close>; \<open>pool_warm\<close> is the pool that \<^verbatim>\<open>NewPool\<close>
  builds from them, \<open>pool_busy\<close> the same pool after one \<^verbatim>\<open>Get\<close>.
\<close>

definition store0 :: store where
  "store0 = \<lparr>conn_heap = (\<lambda>_. \<lparr>DB = 0, Key = [], Created = 0, Updated = 0, UsageCounter = 0\<rparr>),
     next_conn = 0, map_heap = (\<lambda>_. []), next_map = 0, closed_dbs = {}, open_calls = 0,
     ctx_done = False\<rparr>"

definition answers :: "nat \<Rightarrow> env" where
  "answers i = \<lparr>Open_result = Inr (100 + i), uuid_String = ''ab-cd'',
     keyFunc_result = (if i = 0 then ''k0'' else if i = 1 then ''k1''
                       else if i = 2 then ''k2'' else ''k3''),
     Now = 7, select_wake = TimerFired, Since_start = 5\<rparr>"

definition opts23 :: Options where
  "opts23 = \<lparr>Type = MySQL, Args = Some 1, KeyFunc = Some 0, KeepConn = 2, Capacity = 3,
     MaxWaitDuration = 10, connector = None\<rparr>"

definition opts12 :: Options where
  "opts12 = \<lparr>Type = MySQL, Args = Some 1, KeyFunc = Some 0, KeepConn = 1, Capacity = 2,
     MaxWaitDuration = 10, connector = None\<rparr>"

definition pool_warm :: Pool where
  "pool_warm = \<lparr>pType = MySQL, pArgs = Some 1, keyFunc = Some 0,
     pconnector = Some (my_New (Some 1)), keepConn = 1, capacity = 2, maxWaitDuration = 10,
     mu = False, idleConn = \<lparr>keys = [''k0''], conns = 0, csize = 1\<rparr>,
     busyConn = \<lparr>keys = [], conns = 1, csize = 0\<rparr>, closed = False, ch = 1,
     currentWaitCount = 0, totalWaitCount = 0, waitDuration = 0, droppedGetCount = 0\<rparr>"

definition store_warm :: store where
  "store_warm = \<lparr>conn_heap = (\<lambda>_. \<lparr>DB = 0, Key = [], Created = 0, Updated = 0, UsageCounter = 0\<rparr>)
       (0 := \<lparr>DB = 100, Key = ''k0'', Created = 7, Updated = 7, UsageCounter = 0\<rparr>),
     next_conn = 1, map_heap = (\<lambda>_. [])(1 := [], 0 := [(''k0'', 0)]), next_map = 2,
     closed_dbs = {}, open_calls = 1, ctx_done = False\<rparr>"

definition pool_busy :: Pool where
  "pool_busy = pool_warm\<lparr>idleConn := \<lparr>keys = [], conns = 0, csize = 0\<rparr>,
     busyConn := \<lparr>keys = [''k0''], conns = 1, csize = 1\<rparr>, ch := 0\<rparr>"

definition store_busy :: store where
  "store_busy = store_warm\<lparr>conn_heap := (conn_heap store0)
       (0 := \<lparr>DB = 100, Key = ''k0'', Created = 7, Updated = 7, UsageCounter = 1\<rparr>),
     map_heap := (\<lambda>_. [])(0 := [], 1 := [(''k0'', 0)])\<rparr>"

definition pool23 :: Pool where
  "pool23 = \<lparr>pType = MySQL, pArgs = Some 1, keyFunc = Some 0,
     pconnector = Some (my_New (Some 1)), keepConn = 2, capacity = 3, maxWaitDuration = 10,
     mu = False, idleConn = \<lparr>keys = [], conns = 0, csize = 0\<rparr>,
     busyConn = \<lparr>keys = [''k0'', ''k1''], conns = 1, csize = 2\<rparr>, closed = False, ch = 0,
     currentWaitCount = 0, totalWaitCount = 0, waitDuration = 0, droppedGetCount = 0\<rparr>"

definition store23 :: store where
  "store23 = \<lparr>conn_heap = (\<lambda>_. \<lparr>DB = 0, Key = [], Created = 0, Updated = 0, UsageCounter = 0\<rparr>)
       (0 := \<lparr>DB = 100, Key = ''k0'', Created = 7, Updated = 7, UsageCounter = 1\<rparr>,
        1 := \<lparr>DB = 101, Key = ''k1'', Created = 7, Updated = 7, UsageCounter = 1\<rparr>),
     next_conn = 2, map_heap = (\<lambda>_. [])(0 := [], 1 := [(''k0'', 0), (''k1'', 1)]), next_map = 2,
     closed_dbs = {}, open_calls = 2, ctx_done = False\<rparr>"

text \<open>
  Options with \<^verbatim>\<open>KeepConn = 0\<close> and \<^verbatim>\<open>Capacity = 1\<close>, the pool that \<^verbatim>\<open>NewPool\<close>
  builds from them, and a history of three callers on it. After one connection has been
  taken, a second \<^verbatim>\<open>Get\<close> waits, and the connection has been put back, caller A takes
  the lock and calls \<^verbatim>\<open>Open\<close>; the context is cancelled and the waiting \<^verbatim>\<open>Get\<close>
  unlocks the mutex A holds; caller B, who had passed the first \<^verbatim>\<open>select\<close> before the
  cancellation, takes the lock and calls \<^verbatim>\<open>Open\<close> as well; both calls of \<^verbatim>\<open>Open\<close>
  return, and B unlocks. A has not yet reached its \<^verbatim>\<open>Unlock\<close>.
\<close>

definition opts01 :: Options where
  "opts01 = \<lparr>Type = MySQL, Args = Some 1, KeyFunc = Some 0, KeepConn = 0, Capacity = 1,
     MaxWaitDuration = 10, connector = None\<rparr>"

definition pool01 :: Pool where
  "pool01 = \<lparr>pType = MySQL, pArgs = Some 1, keyFunc = Some 0,
     pconnector = Some (my_New (Some 1)), keepConn = 0, capacity = 1, maxWaitDuration = 10,
     mu = False, idleConn = \<lparr>keys = [], conns = 0, csize = 0\<rparr>,
     busyConn = \<lparr>keys = [], conns = 1, csize = 0\<rparr>, closed = False, ch = 0,
     currentWaitCount = 0, totalWaitCount = 0, waitDuration = 0, droppedGetCount = 0\<rparr>"

definition store01 :: store where
  "store01 = \<lparr>conn_heap = (\<lambda>_. \<lparr>DB = 0, Key = [], Created = 0, Updated = 0, UsageCounter = 0\<rparr>),
     next_conn = 0, map_heap = (\<lambda>_. [])(0 := [], 1 := []), next_map = 2,
     closed_dbs = {100}, open_calls = 1, ctx_done = False\<rparr>"

definition overlap :: "call list" where
  "overlap =
     [CallGet (answers 1),
      CallGetDefault (answers 1),
      CallPut 9 0,
      CallGetUntilOpen (answers 2),
      Cancel,
      CallGetSelect ((answers 1)\<lparr>select_wake := CtxFired\<rparr>),
      CallGetResume ((answers 1)\<lparr>select_wake := CtxFired\<rparr>),
      CallGetUntilOpen (answers 3),
      CallGetAfterOpen (answers 2),
      CallGetAfterOpen (answers 3),
      CallUnlock]"

section \<open>Properties\<close>

subsection \<open>The concrete pools are what the code builds\<close>

lemmas pool_defs = NewPool_def warm_loop.simps Pool_literal_def validate_def newConns_def max_int_def checkArgs_def
  initConn_def conns_put_def conns_get_def Pool_get_def Get_def Get_enter_def Get_done_def
  Get_default_def Get_wake_def Get_select_def Get_resume_def
  Get_until_Open_def Get_after_Open_def Unlock_def
  Put_def conns_deleteByKey_def Close_def conns_close_def Status_def snapshot_def
  watcher_def result_of_def sets_of_def
  set_Updated_def Let_def

lemmas fixture_defs = store0_def answers_def opts12_def opts23_def pool_warm_def store_warm_def
  pool_busy_def store_busy_def pool23_def store23_def opts01_def pool01_def store01_def
  overlap_def

lemma NewPool_warm: "NewPool answers opts12 store0 = Return (Inr (pool_warm, True), store_warm)"
  by (simp add: pool_defs fixture_defs)



lemma pool23_reached:
  "\<exists>p0 s0. NewPool answers opts23 store0 = Return (Inr (p0, True), s0) \<and>
     run [CallGet (answers 2), CallGet (answers 2)] p0 s0 = Return (pool23, store23)"
  by (simp add: pool_defs fixture_defs)

subsection \<open>The ordered connection set\<close>

lemma map_heap_set_Updated [simp]: "map_heap (set_Updated now conn s) = map_heap s"
  by (simp add: set_Updated_def)

lemma set_Updated_idem [simp]:
  "set_Updated now conn (set_Updated now conn s) = set_Updated now conn s"
  by (simp add: set_Updated_def)

lemma deleteByKey_loop_absent:
  "key \<notin> set vals \<Longrightarrow> deleteByKey_loop now m key vals ks s = Return (ks @ vals, s)"
  by (induction vals arbitrary: ks) auto

lemma deleteByKey_loop_present:
  "map_of (map_heap s m) key = Some conn \<Longrightarrow>
   deleteByKey_loop now m key vals ks s =
     Return (ks @ filter (\<lambda>v. v \<noteq> key) vals,
             if key \<in> set vals then set_Updated now conn s else s)"
proof (induction vals arbitrary: ks s)
  case Nil
  then show ?case by simp
next
  case (Cons v vals)
  show ?case
  proof (cases "v = key")
    case True
    have "map_of (map_heap (set_Updated now conn s) m) key = Some conn"
      using Cons.prems by simp
    from Cons.IH [OF this] True Cons.prems show ?thesis by simp
  next
    case False
    with Cons.IH [OF Cons.prems] show ?thesis by simp
  qed
qed

lemma unat_wrap_exceeds_max_int: "max_int < unat ((0::u64) - 1)"
  by (simp add: max_int_def unsigned_minus_1_eq_mask mask_eq_exp_minus_1)

lemma conns_deleteByKey_empty: "csize cs = 0 \<Longrightarrow> conns_deleteByKey now key cs s = Panic"
  using unat_wrap_exceeds_max_int by (simp add: conns_deleteByKey_def)

lemma conns_deleteByKey_Return:
  "conns_deleteByKey now key cs s = Return (cs', s') \<Longrightarrow>
   csize cs \<noteq> 0 \<and> csize cs' = csize cs - 1 \<and> conns cs' = conns cs"
  using conns_deleteByKey_empty [of cs now key s]
  by (auto simp: conns_deleteByKey_def split: if_splits exec.splits)

lemma conns_deleteByKey_present:
  assumes "map_of (map_heap s (conns cs)) key = Some conn"
    and "unat (csize cs - 1) \<le> max_int"
  shows "conns_deleteByKey now key cs s =
     Return (cs\<lparr>keys := replicate (unat (csize cs - 1)) [] @ filter (\<lambda>v. v \<noteq> key) (keys cs),
                csize := csize cs - 1\<rparr>,
             (if key \<in> set (keys cs) then set_Updated now conn s else s)
               \<lparr>map_heap := (map_heap s)(conns cs := AList.delete key (map_heap s (conns cs)))\<rparr>)"
  using assms by (simp add: conns_deleteByKey_def deleteByKey_loop_present)


subsection \<open>The sizes stay within the capacity\<close>

lemma unat_inc: "unat (x::u64) < unat (y::u64) \<Longrightarrow> unat (x + 1) = Suc (unat x)"
proof -
  assume a: "unat x < unat y"
  have "unat y < 2 ^ 64" using unsigned_less [of y] by simp
  with a have "unat x + unat (1::u64) < 2 ^ LENGTH(64)" by simp
  then have "unat (x + 1) = unat x + unat (1::u64)" by (rule unat_add_lem [THEN iffD1])
  then show ?thesis by simp
qed

lemma unat_dec: "(x::u64) \<noteq> 0 \<Longrightarrow> unat (x - 1) = unat x - 1"
  by (rule unat_minus_one)

lemma conns_put_eq:
  "conns_put now c cs s = (cs', s') \<Longrightarrow>
   cs' = cs\<lparr>keys := keys cs @ [Key (conn_heap s c)], csize := csize cs + 1\<rparr>"
  by (auto simp: conns_put_def Let_def)

lemma conns_get_Return:
  "conns_get now cs s = Return (c, cs', s') \<Longrightarrow>
   keys cs \<noteq> [] \<and> cs' = cs\<lparr>keys := tl (keys cs), csize := csize cs - 1\<rparr>"
  by (auto simp: conns_get_def split: list.splits option.splits)

lemma Pool_get_Return:
  "Pool_get now p s = Return (c, p', s') \<Longrightarrow>
   keys (idleConn p) \<noteq> [] \<and>
   (\<exists>k. p' = p\<lparr>idleConn := (idleConn p)\<lparr>keys := tl (keys (idleConn p)), csize := csize (idleConn p) - 1\<rparr>,
              busyConn := (busyConn p)\<lparr>keys := keys (busyConn p) @ [k], csize := csize (busyConn p) + 1\<rparr>\<rparr>)"
  by (auto simp: Pool_get_def split: exec.splits prod.splits dest!: conns_get_Return conns_put_eq)

lemma Pool_get_sizes_ok:
  assumes "Pool_get now p s = Return (c, p', s')" and "sizes_ok p"
  shows "sizes_ok p' \<and> total_size p' = total_size p \<and> capacity p' = capacity p"
proof -
  from Pool_get_Return [OF assms(1)] obtain k where
    ne: "keys (idleConn p) \<noteq> []" and
    p': "p' = p\<lparr>idleConn := (idleConn p)\<lparr>keys := tl (keys (idleConn p)), csize := csize (idleConn p) - 1\<rparr>,
              busyConn := (busyConn p)\<lparr>keys := keys (busyConn p) @ [k], csize := csize (busyConn p) + 1\<rparr>\<rparr>"
    by blast
  from assms(2) have tot: "unat (csize (idleConn p)) + unat (csize (busyConn p)) \<le> unat (capacity p)"
    and len: "length (keys (idleConn p)) = unat (csize (idleConn p))"
    by (simp_all add: sizes_ok_def total_size_def)
  from ne len have pos: "0 < unat (csize (idleConn p))" by (cases "keys (idleConn p)") auto
  then have nz: "csize (idleConn p) \<noteq> 0" by (simp add: unat_gt_0)
  have dec: "unat (csize (idleConn p) - 1) = unat (csize (idleConn p)) - 1"
    using nz by (rule unat_dec)
  from pos tot have "unat (csize (busyConn p)) < unat (capacity p)" by simp
  then have inc: "unat (csize (busyConn p) + 1) = Suc (unat (csize (busyConn p)))"
    by (rule unat_inc)
  show ?thesis
    using p' dec inc pos tot len by (simp add: sizes_ok_def total_size_def)
qed

lemma initConn_Return:
  "initConn e p s = Return (r, p', s') \<Longrightarrow>
   (r \<noteq> None \<and> p' = p) \<or>
   (r = None \<and> (\<exists>k. p' = p\<lparr>ch := Suc (ch p),
       idleConn := (idleConn p)\<lparr>keys := keys (idleConn p) @ [k], csize := csize (idleConn p) + 1\<rparr>\<rparr>))"
  by (auto simp: initConn_def Let_def split: sum.splits if_splits prod.splits dest!: conns_put_eq)

lemma initConn_sizes_ok:
  assumes "initConn e p s = Return (None, p', s')" and "sizes_ok p"
    and "total_size p < unat (capacity p)"
  shows "sizes_ok p' \<and> total_size p' = Suc (total_size p) \<and> capacity p' = capacity p"
proof -
  from initConn_Return [OF assms(1)] obtain k where
    p': "p' = p\<lparr>ch := Suc (ch p),
       idleConn := (idleConn p)\<lparr>keys := keys (idleConn p) @ [k], csize := csize (idleConn p) + 1\<rparr>\<rparr>"
    by auto
  from assms(3) have "unat (csize (idleConn p)) < unat (capacity p)"
    by (simp add: total_size_def)
  then have inc: "unat (csize (idleConn p) + 1) = Suc (unat (csize (idleConn p)))"
    by (rule unat_inc)
  show ?thesis
    using p' inc assms(2,3) by (simp add: sizes_ok_def total_size_def)
qed


lemma sizes_ok_frame [simp]:
  "sizes_ok (p\<lparr>mu := b\<rparr>) = sizes_ok p"
  "sizes_ok (p\<lparr>ch := n\<rparr>) = sizes_ok p"
  "sizes_ok (p\<lparr>closed := b\<rparr>) = sizes_ok p"
  "sizes_ok (p\<lparr>droppedGetCount := x\<rparr>) = sizes_ok p"
  "sizes_ok (p\<lparr>currentWaitCount := x\<rparr>) = sizes_ok p"
  "sizes_ok (p\<lparr>totalWaitCount := x\<rparr>) = sizes_ok p"
  "sizes_ok (p\<lparr>waitDuration := x\<rparr>) = sizes_ok p"
  by (simp_all add: sizes_ok_def total_size_def)

lemma total_size_frame [simp]:
  "total_size (p\<lparr>mu := b\<rparr>) = total_size p"
  "total_size (p\<lparr>ch := n\<rparr>) = total_size p"
  "total_size (p\<lparr>closed := b\<rparr>) = total_size p"
  "total_size (p\<lparr>droppedGetCount := x\<rparr>) = total_size p"
  "total_size (p\<lparr>currentWaitCount := x\<rparr>) = total_size p"
  "total_size (p\<lparr>totalWaitCount := x\<rparr>) = total_size p"
  "total_size (p\<lparr>waitDuration := x\<rparr>) = total_size p"
  by (simp_all add: total_size_def)

lemma Get_default_sizes_ok:
  assumes g: "Get_default e p s = Return (r, p', s')" and ok: "sizes_ok p"
  shows "sizes_ok p' \<and> capacity p' = capacity p"
proof (cases "closed p")
  case True
  with g ok show ?thesis by (auto simp: Get_default_def split: if_splits)
next
  case False
  note open_pool = this
  show ?thesis
  proof (cases "csize (idleConn p) > 0")
    case True
    with g open_pool obtain c p1 where pg: "Pool_get (Now e) p s = Return (c, p1, s')"
      and p': "p' = p1\<lparr>ch := ch p1 - 1, mu := False\<rparr>"
      by (auto simp: Get_default_def split: if_splits exec.splits)
    from Pool_get_sizes_ok [OF pg ok] p' show ?thesis by simp
  next
    case False
    note idle_empty = this
    show ?thesis
    proof (cases "csize (busyConn p) < capacity p")
      case True
      from idle_empty have z: "csize (idleConn p) = 0" by (simp add: word_neq_0_conv [symmetric])
      from True z have lt: "total_size p < unat (capacity p)"
        by (simp add: total_size_def word_less_nat_alt)
      from g open_pool idle_empty True consider
          (err) err p1 s1 where "initConn e p s = Return (Some err, p1, s1)" "p' = p1\<lparr>mu := True\<rparr>"
        | (fresh) p1 s1 c p2 where "initConn e p s = Return (None, p1, s1)"
            "Pool_get (Now e) p1 s1 = Return (c, p2, s')" "p' = p2\<lparr>ch := ch p2 - 1, mu := False\<rparr>"
        by (auto simp: Get_default_def split: if_splits exec.splits option.splits)
      then show ?thesis
      proof cases
        case err
        from initConn_Return [OF err(1)] have "p1 = p" by auto
        with err ok show ?thesis by simp
      next
        case fresh
        from initConn_sizes_ok [OF fresh(1) ok lt] have ok1: "sizes_ok p1" and c1: "capacity p1 = capacity p"
          by simp_all
        from Pool_get_sizes_ok [OF fresh(2) ok1] c1 fresh(3) show ?thesis by simp
      qed
    next
      case False
      with g open_pool idle_empty ok show ?thesis
        by (auto simp: Get_default_def split: if_splits)
    qed
  qed
qed

lemma Get_enter_sizes_ok:
  assumes g: "Get_enter e p s = Return (r, p', s')" and ok: "sizes_ok p"
  shows "sizes_ok p' \<and> capacity p' = capacity p"
proof (cases "ctx_done s")
  case True
  with g ok show ?thesis by (auto simp: Get_enter_def Get_done_def split: if_splits)
next
  case False
  with g have "Get_default e p s = Return (r, p', s')" by (simp add: Get_enter_def)
  from Get_default_sizes_ok [OF this ok] show ?thesis .
qed

lemma Get_select_sizes_ok:
  assumes g: "Get_select e p s = Return (p', s')" and ok: "sizes_ok p"
  shows "sizes_ok p' \<and> capacity p' = capacity p"
  using assms by (auto simp: Get_select_def split: wake_event.splits if_splits)

lemma Get_resume_sizes_ok:
  assumes g: "Get_resume e p s = Return (r, p', s')" and ok: "sizes_ok p"
  shows "sizes_ok p' \<and> capacity p' = capacity p"
proof (cases "select_wake e")
  case CtxFired
  with g ok show ?thesis by (auto simp: Get_resume_def split: if_splits)
next
  case SlotFreed
  with g obtain c p1 where pg: "Pool_get (Now e) p s = Return (c, p1, s')"
    and p': "p' = p1\<lparr>waitDuration := waitDuration p1 + Since_start e,
                      currentWaitCount := currentWaitCount p1 - 1, mu := False\<rparr>"
    by (auto simp: Get_resume_def split: if_splits exec.splits)
  from Pool_get_sizes_ok [OF pg ok] p' show ?thesis by simp
next
  case TimerFired
  with g ok show ?thesis by (auto simp: Get_resume_def split: if_splits)
qed

lemma Get_wake_sizes_ok:
  assumes g: "Get_wake e p s = Return (r, p', s')" and ok: "sizes_ok p"
  shows "sizes_ok p' \<and> capacity p' = capacity p"
proof -
  from g obtain p1 s1 where sel: "Get_select e p s = Return (p1, s1)"
    and res: "Get_resume e p1 s1 = Return (r, p', s')"
    by (auto simp: Get_wake_def split: exec.splits)
  from Get_select_sizes_ok [OF sel ok] have "sizes_ok p1" "capacity p1 = capacity p" by simp_all
  with Get_resume_sizes_ok [OF res] show ?thesis by simp
qed

lemma Get_sizes_ok:
  assumes g: "Get e p s = Return (r, p', s')" and ok: "sizes_ok p"
  shows "sizes_ok p' \<and> capacity p' = capacity p"
proof -
  from g consider
      (finished) "Get_enter e p s = Return (Done r, p', s')"
    | (waits) p1 s1 where "Get_enter e p s = Return (Waiting, p1, s1)" "Get_wake e p1 s1 = Return (r, p', s')"
    by (auto simp: Get_def split: exec.splits get_progress.splits)
  then show ?thesis
  proof cases
    case finished
    from Get_enter_sizes_ok [OF finished ok] show ?thesis .
  next
    case waits
    from Get_enter_sizes_ok [OF waits(1) ok] have "sizes_ok p1" "capacity p1 = capacity p" by simp_all
    with Get_wake_sizes_ok [OF waits(2)] show ?thesis by simp
  qed
qed

lemma Put_sizes:
  assumes "Put now conn p s = Return (p', s')"
  shows "csize (busyConn p) \<noteq> 0 \<and> csize (busyConn p') = csize (busyConn p) - 1 \<and>
    capacity p' = capacity p \<and>
    (if csize (idleConn p) < keepConn p \<and> \<not> closed p
     then csize (idleConn p') = csize (idleConn p) + 1 \<and>
          length (keys (idleConn p')) = Suc (length (keys (idleConn p)))
     else idleConn p' = idleConn p)"
proof -
  from assms obtain busy s1 where
    d: "conns_deleteByKey now (Key (conn_heap s conn)) (busyConn p) s = Return (busy, s1)"
    by (auto simp: Put_def split: if_splits exec.splits)
  from conns_deleteByKey_Return [OF d] have nz: "csize (busyConn p) \<noteq> 0"
    and bs: "csize busy = csize (busyConn p) - 1"
    by simp_all
  show ?thesis
  proof (cases "csize (idleConn p) < keepConn p \<and> \<not> closed p")
    case True
    with assms d have "p' = p\<lparr>busyConn := busy, idleConn := fst (conns_put now conn (idleConn p) s1),
          ch := Suc (ch p), mu := False\<rparr>"
      by (simp add: Put_def split: if_splits prod.splits)
    with True nz bs show ?thesis by (simp add: conns_put_def Let_def)
  next
    case False
    with assms d have "p' = p\<lparr>busyConn := busy, mu := False\<rparr>"
      by (simp add: Put_def split: if_splits)
    with False nz bs show ?thesis by simp
  qed
qed

lemma Put_sizes_ok:
  assumes pt: "Put now conn p s = Return (p', s')" and ok: "sizes_ok p"
  shows "sizes_ok p' \<and> capacity p' = capacity p \<and> total_size p' \<le> total_size p"
proof -
  note f = Put_sizes [OF pt]
  from f have nz: "csize (busyConn p) \<noteq> 0" by simp
  then have pos: "0 < unat (csize (busyConn p))" by (simp add: unat_gt_0)
  from f nz have dec: "unat (csize (busyConn p')) = unat (csize (busyConn p)) - 1"
    by (simp add: unat_dec)
  show ?thesis
  proof (cases "csize (idleConn p) < keepConn p \<and> \<not> closed p")
    case True
    then have "unat (csize (idleConn p)) < unat (keepConn p)" by (simp add: word_less_nat_alt)
    then have inc: "unat (csize (idleConn p) + 1) = Suc (unat (csize (idleConn p)))"
      by (rule unat_inc)
    from f True inc dec pos ok show ?thesis
      by (simp add: sizes_ok_def total_size_def)
  next
    case False
    with f dec pos ok show ?thesis
      by (auto simp: sizes_ok_def total_size_def)
  qed
qed

lemma Close_idle: "Close p s = Return (p', s') \<Longrightarrow> p' = p\<lparr>closed := True, mu := False\<rparr>"
  by (auto simp: Close_def conns_close_def Let_def split: if_splits)

lemma step_sizes_ok:
  assumes st: "step c p s = Return (p', s')" and ok: "sizes_ok p" and wh: "whole c"
  shows "sizes_ok p' \<and> capacity p' = capacity p"
proof (cases c)
  case (CallGet e)
  with st obtain r where "Get e p s = Return (r, p', s')"
    by (cases "Get e p s" rule: drop_result.cases) auto
  from Get_sizes_ok [OF this ok] show ?thesis .
next
  case (CallGetDefault e)
  with st obtain r where "Get_default e p s = Return (r, p', s')"
    by (cases "Get_default e p s" rule: drop_result.cases) auto
  from Get_default_sizes_ok [OF this ok] show ?thesis .
next
  case (CallGetSelect e)
  with st have "Get_select e p s = Return (p', s')" by simp
  from Get_select_sizes_ok [OF this ok] show ?thesis .
next
  case (CallGetResume e)
  with st obtain r where "Get_resume e p s = Return (r, p', s')"
    by (cases "Get_resume e p s" rule: drop_result.cases) auto
  from Get_resume_sizes_ok [OF this ok] show ?thesis .
next
  case (CallPut now conn)
  with st have "Put now conn p s = Return (p', s')" by simp
  from Put_sizes_ok [OF this ok] show ?thesis by simp
next
  case CallClose
  with st have "Close p s = Return (p', s')" by simp
  from Close_idle [OF this] ok show ?thesis by simp
next
  case CallStatus
  with st ok show ?thesis by (auto simp: Status_def split: if_splits)
next
  case Cancel
  with st ok show ?thesis by auto
next
  case RunWatcher
  with st have "Close p s = Return (p', s') \<or> p' = p"
    by (auto simp: watcher_def split: if_splits)
  with Close_idle [of p s p' s'] ok show ?thesis by auto
qed (use wh in simp_all)

lemma run_sizes_ok:
  "run cs p s = Return (p', s') \<Longrightarrow> sizes_ok p \<Longrightarrow> list_all whole cs \<Longrightarrow>
   sizes_ok p' \<and> capacity p' = capacity p"
proof (induction cs arbitrary: p s)
  case Nil
  then show ?case by simp
next
  case (Cons c cs)
  from Cons.prems(1) obtain p1 s1 where st: "step c p s = Return (p1, s1)"
    and rn: "run cs p1 s1 = Return (p', s')"
    by (auto split: exec.splits)
  from Cons.prems(3) have wh: "whole c" and whs: "list_all whole cs" by simp_all
  from step_sizes_ok [OF st Cons.prems(2) wh] have "sizes_ok p1" "capacity p1 = capacity p" by simp_all
  with Cons.IH [OF rn _ whs] show ?case by simp
qed


subsection \<open>Which calls reach the connector\<close>

lemma Pool_get_open_calls:
  "Pool_get now p s = Return (c, p', s') \<Longrightarrow> open_calls s' = open_calls s"
  by (auto simp: Pool_get_def conns_get_def conns_put_def set_Updated_def Let_def
      split: exec.splits list.splits option.splits)

lemma Get_wake_open_calls:
  "Get_wake e p s = Return (r, p', s') \<Longrightarrow> open_calls s' = open_calls s"
  by (auto simp: Get_wake_def Get_select_def Get_resume_def
      split: wake_event.splits if_splits exec.splits dest: Pool_get_open_calls)

lemma Get_enter_opens:
  assumes "Get_enter e p s = Return (r, p', s')" and "open_calls s' \<noteq> open_calls s"
  shows "csize (idleConn p) = 0 \<and> csize (busyConn p) < capacity p"
proof (rule ccontr)
  assume n: "\<not> (csize (idleConn p) = 0 \<and> csize (busyConn p) < capacity p)"
  then have "csize (idleConn p) > 0 \<or> (csize (idleConn p) = 0 \<and> \<not> csize (busyConn p) < capacity p)"
    using word_neq_0_conv [of "csize (idleConn p)"] by auto
  with assms(1) have "open_calls s' = open_calls s"
    by (auto simp: Get_enter_def Get_done_def Get_default_def split: if_splits exec.splits
        dest: Pool_get_open_calls)
  with assms(2) show False by simp
qed

lemma Get_opens:
  assumes "Get e p s = Return (r, p', s')" and "open_calls s' \<noteq> open_calls s"
  shows "csize (idleConn p) = 0 \<and> csize (busyConn p) < capacity p"
proof -
  from assms(1) consider
      (finished) "Get_enter e p s = Return (Done r, p', s')"
    | (waits) p1 s1 where "Get_enter e p s = Return (Waiting, p1, s1)" "Get_wake e p1 s1 = Return (r, p', s')"
    by (auto simp: Get_def split: exec.splits get_progress.splits)
  then show ?thesis
  proof cases
    case finished
    from Get_enter_opens [OF finished assms(2)] show ?thesis .
  next
    case waits
    from Get_wake_open_calls [OF waits(2)] assms(2) have "open_calls s1 \<noteq> open_calls s" by simp
    from Get_enter_opens [OF waits(1) this] show ?thesis .
  qed
qed

subsection \<open>Construction establishes the sizes\<close>

lemma validate_None:
  "validate opt = (opt', None) \<Longrightarrow>
   opt' = opt\<lparr>connector := connector opt'\<rparr> \<and> KeepConn opt \<le> Capacity opt \<and> Capacity opt \<noteq> 0"
  by (auto simp: validate_def Let_def split: SQLType.splits if_splits)

lemma warm_loop_sizes_ok:
  "warm_loop es n i p s = Return (None, p', s') \<Longrightarrow> sizes_ok p \<Longrightarrow>
   total_size p + (n - i) \<le> unat (capacity p) \<Longrightarrow>
   sizes_ok p' \<and> capacity p' = capacity p"
proof (induction es n i p s rule: warm_loop.induct)
  case (1 es n i p s)
  show ?case
  proof (cases "i < n")
    case True
    with "1.prems"(1) obtain p1 s1 where ic: "initConn (es i) p s = Return (None, p1, s1)"
      and wl: "warm_loop es n (Suc i) p1 s1 = Return (None, p', s')"
      by (subst (asm) warm_loop.simps) (auto split: exec.splits option.splits)
    from True "1.prems"(3) have lt: "total_size p < unat (capacity p)" by simp
    from initConn_sizes_ok [OF ic "1.prems"(2) lt] have ok1: "sizes_ok p1"
      and t1: "total_size p1 = Suc (total_size p)" and c1: "capacity p1 = capacity p"
      by simp_all
    from t1 c1 True "1.prems"(3) have "total_size p1 + (n - Suc i) \<le> unat (capacity p1)" by simp
    from "1.IH" [OF True ic refl refl refl wl ok1 this] c1 show ?thesis by simp
  next
    case False
    with "1.prems"(1) have "p' = p" by (subst (asm) warm_loop.simps) simp
    with "1.prems"(2) show ?thesis by simp
  qed
qed


subsection \<open>Validation\<close>

lemma validate_cases:
  "snd (validate opt) =
     (if Type opt \<notin> {MySQL, PostgreSQL, SQLite3, SQLServer} then Some ErrSQLType
      else if Args opt = None then Some ErrEmptyArgs
      else if Capacity opt = 0 then Some ErrCapacity
      else if KeepConn opt > Capacity opt then Some ErrKeepLTCapacity
      else None)"
  by (cases "Type opt") (simp_all add: validate_def Let_def)

lemma NewPool_invalid:
  "snd (validate opt) = Some err \<Longrightarrow> NewPool es opt s = Return (Inl err, s)"
  by (cases "validate opt") (simp add: NewPool_def)

text \<open>
  C3. Validation checks in a fixed order and stops at the first failure: a \<^verbatim>\<open>Type\<close> that
  is none of the four kinds gives \<^verbatim>\<open>ErrSQLType\<close>; otherwise a nil \<^verbatim>\<open>Args\<close> gives
  \<^verbatim>\<open>ErrEmptyArgs\<close>; otherwise a zero \<^verbatim>\<open>Capacity\<close> gives \<^verbatim>\<open>ErrCapacity\<close>; otherwise
  \<^verbatim>\<open>KeepConn > Capacity\<close> gives \<^verbatim>\<open>ErrKeepLTCapacity\<close>; otherwise there is no error.
  \<^verbatim>\<open>NewPool\<close> returns the error of the validation, and leaves the store as it was.
\<close>

theorem validate_order:
  "snd (validate opt) =
     (if Type opt \<notin> {MySQL, PostgreSQL, SQLite3, SQLServer} then Some ErrSQLType
      else if Args opt = None then Some ErrEmptyArgs
      else if Capacity opt = 0 then Some ErrCapacity
      else if KeepConn opt > Capacity opt then Some ErrKeepLTCapacity
      else None)
   \<and> (\<forall>err. snd (validate opt) = Some err \<longrightarrow>
          (\<forall>es s. NewPool es opt s = Return (Inl err, s)))"
  using validate_cases [of opt] NewPool_invalid [of opt] by blast

theorem validate_order_witness:
  "snd (validate (opts12\<lparr>Capacity := 0, KeepConn := 5\<rparr>)) = Some ErrCapacity
   \<and> NewPool answers (opts12\<lparr>Capacity := 0, KeepConn := 5\<rparr>) store0
       = Return (Inl ErrCapacity, store0)"
  using validate_order [of "opts12\<lparr>Capacity := 0, KeepConn := 5\<rparr>"]
  by (simp add: opts12_def)

subsection \<open>Get on a cancelled context, and Get whose Open fails\<close>

text \<open>
  C7. When the context is already done at the call, \<^verbatim>\<open>Get\<close> returns
  \<^verbatim>\<open>ErrGetFromClosedPool\<close> and adds one to \<^verbatim>\<open>droppedGetCount\<close>; nothing else of the
  pool and nothing of the store changes, so both sets, their maps and their Conns are as
  before. The mutex must be free for the call to get it.
\<close>

theorem Get_cancelled:
  "ctx_done s \<Longrightarrow> \<not> mu p \<Longrightarrow>
   Get e p s = Return (Inl ErrGetFromClosedPool,
                       p\<lparr>droppedGetCount := droppedGetCount p + 1\<rparr>, s)"
  by (cases p) (simp add: Get_def Get_enter_def Get_done_def Get_default_def)

theorem Get_cancelled_witness:
  "ctx_done (store_warm\<lparr>ctx_done := True\<rparr>) \<and> \<not> mu pool_warm \<and>
   Get (answers 1) pool_warm (store_warm\<lparr>ctx_done := True\<rparr>)
     = Return (Inl ErrGetFromClosedPool, pool_warm\<lparr>droppedGetCount := 1\<rparr>,
               store_warm\<lparr>ctx_done := True\<rparr>)"
  using Get_cancelled [of "store_warm\<lparr>ctx_done := True\<rparr>" pool_warm "answers 1"]
  by (simp add: pool_warm_def)

text \<open>
  C10. When the idle set is empty, the busy set is below the capacity and the connector's
  \<^verbatim>\<open>Open\<close> fails, \<^verbatim>\<open>Get\<close> returns that error as it is. Of the pool only the mutex
  differs afterwards (it is left locked), so the idle set, the busy set, the channel and
  every counter keep their values; of the store only the count of \<^verbatim>\<open>Open\<close> calls differs.
\<close>

theorem Get_open_fails:
  "\<not> ctx_done s \<Longrightarrow> \<not> mu p \<Longrightarrow> \<not> closed p \<Longrightarrow> csize (idleConn p) = 0 \<Longrightarrow>
   csize (busyConn p) < capacity p \<Longrightarrow> Open_result e = Inl err \<Longrightarrow>
   Get e p s = Return (Inl err, p\<lparr>mu := True\<rparr>, s\<lparr>open_calls := Suc (open_calls s)\<rparr>)"
  by (simp add: Get_def Get_enter_def Get_default_def initConn_def)

theorem Get_open_fails_witness:
  "\<not> ctx_done store_busy \<and> \<not> mu pool_busy \<and> \<not> closed pool_busy \<and>
   csize (idleConn pool_busy) = 0 \<and> csize (busyConn pool_busy) < capacity pool_busy \<and>
   Get ((answers 1)\<lparr>Open_result := Inl (BackendError 3)\<rparr>) pool_busy store_busy
     = Return (Inl (BackendError 3), pool_busy\<lparr>mu := True\<rparr>,
               store_busy\<lparr>open_calls := 2\<rparr>)"
  using Get_open_fails [of store_busy pool_busy
      "(answers 1)\<lparr>Open_result := Inl (BackendError 3)\<rparr>" "BackendError 3"]
  by (simp add: fixture_defs)

subsection \<open>The capacity bound\<close>

lemma validate_caps:
  assumes "validate opt = (opt', None)"
  shows "Capacity opt' = Capacity opt" and "KeepConn opt' = KeepConn opt"
    and "KeepConn opt \<le> Capacity opt"
proof -
  from validate_None [OF assms] have e: "opt' = opt\<lparr>connector := connector opt'\<rparr>"
    and le: "KeepConn opt \<le> Capacity opt" by simp_all
  from e have "Capacity opt' = Capacity (opt\<lparr>connector := connector opt'\<rparr>)" by simp
  then show "Capacity opt' = Capacity opt" by simp
  from e have "KeepConn opt' = KeepConn (opt\<lparr>connector := connector opt'\<rparr>)" by simp
  then show "KeepConn opt' = KeepConn opt" by simp
  from le show "KeepConn opt \<le> Capacity opt" .
qed

lemma NewPool_Inr:
  assumes np: "NewPool es opts s = Return (Inr (p, w), s')"
  shows "\<exists>opts' idle busy s2. validate opts = (opts', None) \<and> csize idle = 0 \<and> keys idle = [] \<and>
      csize busy = 0 \<and>
      (p = Pool_literal opts' idle busy \<and> \<not> w \<and> KeepConn opts' = 0 \<or>
       w \<and> KeepConn opts' \<noteq> 0 \<and> warm_loop es (unat (KeepConn opts')) 0 (Pool_literal opts' idle busy) s2 = Return (None, p, s'))"
proof -
  obtain opts' r where v: "validate opts = (opts', r)" by (cases "validate opts")
  with np have r: "r = None" by (cases r) (simp_all add: NewPool_def)
  obtain idle s1 where n1: "newConns s = (idle, s1)" by (cases "newConns s")
  obtain busy s2 where n2: "newConns s1 = (busy, s2)" by (cases "newConns s1")
  have k: "keepConn (Pool_literal opts' idle busy) = KeepConn opts'" by (simp add: Pool_literal_def)
  from n1 n2 have e: "csize idle = 0" "keys idle = []" "csize busy = 0"
    by (auto simp: newConns_def)
  from np v r n1 n2 have
    "(if KeepConn opts' = 0 then
        (case checkArgs (es 0) s2 of
           (Some err, s3) \<Rightarrow> Return (Inl err, s3)
         | (None, s3) \<Rightarrow> Return (Inr (Pool_literal opts' idle busy, False), s3))
      else
        (case warm_loop es (unat (KeepConn opts')) 0 (Pool_literal opts' idle busy) s2 of
           Panic \<Rightarrow> Panic
         | Blocked \<Rightarrow> Blocked
         | Return (Some err, p', s3) \<Rightarrow> Return (Inl err, s3)
         | Return (None, p', s3) \<Rightarrow> Return (Inr (p', True), s3))) = Return (Inr (p, w), s')"
    by (simp add: NewPool_def Let_def k split: if_splits)
  then have "p = Pool_literal opts' idle busy \<and> \<not> w \<and> KeepConn opts' = 0 \<or>
       w \<and> KeepConn opts' \<noteq> 0 \<and> warm_loop es (unat (KeepConn opts')) 0 (Pool_literal opts' idle busy) s2 = Return (None, p, s')"
    by (auto split: if_splits prod.splits option.splits exec.splits)
  with v r e show ?thesis by blast
qed


lemma NewPool_sizes_ok:
  assumes np: "NewPool es opts s = Return (Inr (p, w), s')"
  shows "sizes_ok p \<and> capacity p = Capacity opts"
proof -
  from NewPool_Inr [OF np] obtain opts' idle busy s2 where
    v: "validate opts = (opts', None)" and e: "csize idle = 0" "keys idle = []" "csize busy = 0"
    and alt: "p = Pool_literal opts' idle busy \<and> \<not> w \<and> KeepConn opts' = 0 \<or>
       w \<and> KeepConn opts' \<noteq> 0 \<and> warm_loop es (unat (KeepConn opts')) 0 (Pool_literal opts' idle busy) s2 = Return (None, p, s')"
    by blast
  note caps = validate_caps [OF v]
  define p0 where "p0 = Pool_literal opts' idle busy"
  have ok0: "sizes_ok p0" and t0: "total_size p0 = 0" and c0: "capacity p0 = Capacity opts"
    using caps e by (simp_all add: p0_def Pool_literal_def sizes_ok_def total_size_def)
  from alt show ?thesis
  proof
    assume "p = Pool_literal opts' idle busy \<and> \<not> w \<and> KeepConn opts' = 0"
    with ok0 c0 show ?thesis by (simp add: p0_def)
  next
    assume "w \<and> KeepConn opts' \<noteq> 0 \<and> warm_loop es (unat (KeepConn opts')) 0 (Pool_literal opts' idle busy) s2 = Return (None, p, s')"
    then have wl: "warm_loop es (unat (KeepConn opts')) 0 p0 s2 = Return (None, p, s')"
      by (simp add: p0_def)
    from caps c0 t0 have "total_size p0 + (unat (KeepConn opts') - 0) \<le> unat (capacity p0)"
      by (simp add: word_le_nat_alt)
    from warm_loop_sizes_ok [OF wl ok0 this] c0 show ?thesis by simp
  qed
qed

text \<open>
  While locked sections do not overlap the sizes are within the capacity: for a pool that
  \<^verbatim>\<open>NewPool\<close> has built with \<^verbatim>\<open>Capacity = C\<close>, after every history of whole steps that
  has not panicked or blocked, the idle size plus the busy size is at most \<open>C\<close>. In such
  a state a \<^verbatim>\<open>Get\<close> calls the connector's \<^verbatim>\<open>Open\<close> only when the idle size is 0 and
  the busy size is below \<open>C\<close>, and a \<^verbatim>\<open>Put\<close> never increases the sum.
\<close>

lemma sizes_within_capacity:
  assumes "NewPool es opts s0 = Return (Inr (p0, w), s1)" and "run cs p0 s1 = Return (p, s)"
    and "list_all whole cs"
  shows "unat (csize (idleConn p)) + unat (csize (busyConn p)) \<le> unat (Capacity opts)
    \<and> (\<forall>e r p' s'. Get e p s = Return (r, p', s') \<and> open_calls s' \<noteq> open_calls s \<longrightarrow>
          csize (idleConn p) = 0 \<and> csize (busyConn p) < Capacity opts)
    \<and> (\<forall>now conn p' s'. Put now conn p s = Return (p', s') \<longrightarrow>
          unat (csize (idleConn p')) + unat (csize (busyConn p'))
            \<le> unat (csize (idleConn p)) + unat (csize (busyConn p)))"
proof -
  from NewPool_sizes_ok [OF assms(1)] have ok0: "sizes_ok p0" and c0: "capacity p0 = Capacity opts"
    by simp_all
  from run_sizes_ok [OF assms(2) ok0 assms(3)] c0 have ok: "sizes_ok p" and c: "capacity p = Capacity opts"
    by simp_all
  from ok c have 1: "unat (csize (idleConn p)) + unat (csize (busyConn p)) \<le> unat (Capacity opts)"
    by (simp add: sizes_ok_def total_size_def)
  have 2: "csize (idleConn p) = 0 \<and> csize (busyConn p) < Capacity opts"
    if "Get e p s = Return (r, p', s') \<and> open_calls s' \<noteq> open_calls s" for e r p' s'
    using Get_opens [of e p s r p' s'] that c by simp
  have 3: "unat (csize (idleConn p')) + unat (csize (busyConn p'))
            \<le> unat (csize (idleConn p)) + unat (csize (busyConn p))"
    if "Put now conn p s = Return (p', s')" for now conn p' s'
    using Put_sizes_ok [OF that ok] by (simp add: total_size_def)
  from 1 2 3 show ?thesis by blast
qed

subsection \<open>Overlapping locked sections exceed the capacity\<close>

lemma NewPool_01: "NewPool answers opts01 store0 = Return (Inr (pool01, False), store01)"
  by (simp add: pool_defs fixture_defs)

lemma initConn_mu:
  "initConn e (p\<lparr>mu := b\<rparr>) s =
     (case initConn e p s of
        Panic \<Rightarrow> Panic
      | Blocked \<Rightarrow> Blocked
      | Return (r, p1, s1) \<Rightarrow> Return (r, p1\<lparr>mu := b\<rparr>, s1))"
  by (simp add: initConn_def Let_def split: sum.splits prod.splits)

lemma Pool_get_mu:
  "Pool_get now (p\<lparr>mu := b\<rparr>) s =
     (case Pool_get now p s of
        Panic \<Rightarrow> Panic
      | Blocked \<Rightarrow> Blocked
      | Return (c, p1, s1) \<Rightarrow> Return (c, p1\<lparr>mu := b\<rparr>, s1))"
  by (simp add: Pool_get_def split: exec.splits prod.splits)

text \<open>The three parts are the \<^verbatim>\<open>default\<close> case: taken one after the other on a free
  mutex, with nothing in between, they do what \<open>Get_default\<close> does.\<close>

lemma Get_default_in_parts:
  assumes "\<not> mu p" "\<not> closed p" "csize (idleConn p) = 0" "csize (busyConn p) < capacity p"
  shows "Get_until_Open e p s = Return (None, p\<lparr>mu := True\<rparr>, s)"
    and "Get_default e p s =
      (case Get_after_Open e (p\<lparr>mu := True\<rparr>) s of
         Panic \<Rightarrow> Panic
       | Blocked \<Rightarrow> Blocked
       | Return (Inl err, p1, s1) \<Rightarrow> Return (Done (Inl err), p1, s1)
       | Return (Inr conn, p1, s1) \<Rightarrow>
           (case Unlock p1 s1 of
              Panic \<Rightarrow> Panic
            | Blocked \<Rightarrow> Blocked
            | Return (p2, s2) \<Rightarrow> Return (Done (Inr conn), p2, s2)))"
proof -
  from assms show "Get_until_Open e p s = Return (None, p\<lparr>mu := True\<rparr>, s)"
    by (simp add: Get_until_Open_def)
  from assms show "Get_default e p s =
      (case Get_after_Open e (p\<lparr>mu := True\<rparr>) s of
         Panic \<Rightarrow> Panic
       | Blocked \<Rightarrow> Blocked
       | Return (Inl err, p1, s1) \<Rightarrow> Return (Done (Inl err), p1, s1)
       | Return (Inr conn, p1, s1) \<Rightarrow>
           (case Unlock p1 s1 of
              Panic \<Rightarrow> Panic
            | Blocked \<Rightarrow> Blocked
            | Return (p2, s2) \<Rightarrow> Return (Done (Inr conn), p2, s2)))"
    by (simp add: Get_default_def Get_after_Open_def Unlock_def initConn_mu Pool_get_mu
        split: exec.splits option.splits prod.splits)
qed

text \<open>
  C1. The sizes do not stay within the capacity. On the pool built with
  \<^verbatim>\<open>KeepConn = 0\<close> and \<^verbatim>\<open>Capacity = 1\<close>, the history \<open>overlap\<close> neither panics nor
  blocks, and it ends with an empty idle set and a busy set of size 2, holding \<open>k2\<close> and
  \<open>k3\<close>; \<^verbatim>\<open>Status\<close> then returns \<^verbatim>\<open>Size = 2\<close> with \<^verbatim>\<open>Capacity = 1\<close>. The waiting
  \<^verbatim>\<open>Get\<close> has unlocked the mutex that the first opening caller held, so the second one
  passed \<^verbatim>\<open>busyConn.size < capacity\<close> before the first had put its connection.
\<close>

theorem overlapping_Gets_exceed_capacity:
  "sets_of (run overlap pool01 store01)
     = Some (([], 0, []), ([''k2'', ''k3''], 2, [(''k2'', 1), (''k3'', 2)]), False, 0)
   \<and> map_option (\<lambda>ps. (psSize ps, psCapacity ps))
        (result_of (case run overlap pool01 store01 of
                      Return (p, s) \<Rightarrow> Status p s | Panic \<Rightarrow> Panic | Blocked \<Rightarrow> Blocked))
     = Some (2, 1)"
  by (simp add: pool_defs fixture_defs)

subsection \<open>Cancellation and the closed flag\<close>

lemma initConn_closed: "initConn e p s = Return (r, p', s') \<Longrightarrow> closed p' = closed p"
  by (drule initConn_Return) auto

lemma Pool_get_closed: "Pool_get now p s = Return (c, p', s') \<Longrightarrow> closed p' = closed p"
  by (drule Pool_get_Return) auto

lemma Get_default_closed: "Get_default e p s = Return (r, p', s') \<Longrightarrow> closed p' = closed p"
  by (auto simp: Get_default_def split: if_splits exec.splits option.splits
      dest!: initConn_closed Pool_get_closed)

lemma Get_enter_closed: "Get_enter e p s = Return (r, p', s') \<Longrightarrow> closed p' = closed p"
  by (auto simp: Get_enter_def Get_done_def split: if_splits dest: Get_default_closed)

lemma Get_select_closed: "Get_select e p s = Return (p', s') \<Longrightarrow> closed p' = closed p"
  by (auto simp: Get_select_def split: wake_event.splits if_splits)

lemma Get_resume_closed: "Get_resume e p s = Return (r, p', s') \<Longrightarrow> closed p' = closed p"
  by (auto simp: Get_resume_def split: wake_event.splits if_splits exec.splits
      dest!: Pool_get_closed)

lemma Get_wake_closed: "Get_wake e p s = Return (r, p', s') \<Longrightarrow> closed p' = closed p"
  by (auto simp: Get_wake_def split: exec.splits dest!: Get_select_closed Get_resume_closed)

lemma Get_until_Open_closed:
  "Get_until_Open e p s = Return (r, p', s') \<Longrightarrow> closed p' = closed p"
  by (auto simp: Get_until_Open_def split: if_splits exec.splits dest: Get_default_closed)

lemma Get_after_Open_closed:
  "Get_after_Open e p s = Return (r, p', s') \<Longrightarrow> closed p' = closed p"
  by (auto simp: Get_after_Open_def split: if_splits exec.splits option.splits
      dest!: initConn_closed Pool_get_closed)

lemma Unlock_closed: "Unlock p s = Return (p', s') \<Longrightarrow> closed p' = closed p"
  by (auto simp: Unlock_def split: if_splits)

lemma Get_closed_kept: "Get e p s = Return (r, p', s') \<Longrightarrow> closed p' = closed p"
  by (auto simp: Get_def split: exec.splits get_progress.splits
      dest!: Get_enter_closed Get_wake_closed)

lemma Put_closed: "Put now conn p s = Return (p', s') \<Longrightarrow> closed p' = closed p"
  by (auto simp: Put_def split: if_splits exec.splits prod.splits)

lemma step_closed:
  assumes "step c p s = Return (p', s')" and "c \<noteq> CallClose" and "c \<noteq> RunWatcher"
  shows "closed p' = closed p"
proof (cases c)
  case (CallGet e)
  with assms(1) obtain r where "Get e p s = Return (r, p', s')"
    by (cases "Get e p s" rule: drop_result.cases) auto
  then show ?thesis by (rule Get_closed_kept)
next
  case (CallGetDefault e)
  with assms(1) obtain r where "Get_default e p s = Return (r, p', s')"
    by (cases "Get_default e p s" rule: drop_result.cases) auto
  then show ?thesis by (rule Get_default_closed)
next
  case (CallGetSelect e)
  with assms(1) show ?thesis by (simp add: Get_select_closed)
next
  case (CallGetResume e)
  with assms(1) obtain r where "Get_resume e p s = Return (r, p', s')"
    by (cases "Get_resume e p s" rule: drop_result.cases) auto
  then show ?thesis by (rule Get_resume_closed)
next
  case (CallGetUntilOpen e)
  with assms(1) obtain r where "Get_until_Open e p s = Return (r, p', s')"
    by (cases "Get_until_Open e p s" rule: drop_result.cases) auto
  then show ?thesis by (rule Get_until_Open_closed)
next
  case (CallGetAfterOpen e)
  with assms(1) obtain r where "Get_after_Open e p s = Return (r, p', s')"
    by (cases "Get_after_Open e p s" rule: drop_result.cases) auto
  then show ?thesis by (rule Get_after_Open_closed)
next
  case CallUnlock
  with assms(1) show ?thesis by (simp add: Unlock_closed)
next
  case (CallPut now conn)
  with assms(1) show ?thesis by (simp add: Put_closed)
next
  case CallStatus
  with assms(1) show ?thesis by (auto simp: Status_def split: if_splits)
next
  case Cancel
  with assms(1) show ?thesis by auto
qed (use assms in simp_all)

lemma run_closed:
  "run cs p s = Return (p', s') \<Longrightarrow> CallClose \<notin> set cs \<Longrightarrow> RunWatcher \<notin> set cs \<Longrightarrow>
   closed p' = closed p"
proof (induction cs arbitrary: p s)
  case Nil
  then show ?case by simp
next
  case (Cons c cs)
  from Cons.prems(1) obtain p1 s1 where st: "step c p s = Return (p1, s1)"
    and rn: "run cs p1 s1 = Return (p', s')"
    by (auto split: exec.splits)
  from Cons.prems have "c \<noteq> CallClose" "c \<noteq> RunWatcher" by auto
  from step_closed [OF st this] have "closed p1 = closed p" .
  moreover from Cons.IH [OF rn] Cons.prems have "closed p' = closed p1" by simp
  ultimately show ?case by simp
qed

lemma NewPool_no_watcher:
  assumes "NewPool es opts s0 = Return (Inr (p0, started), s1)" and "KeepConn opts = 0"
  shows "\<not> started \<and> \<not> closed p0"
proof -
  from NewPool_Inr [OF assms(1)] obtain opts' idle busy s2 where
    v: "validate opts = (opts', None)"
    and alt: "p0 = Pool_literal opts' idle busy \<and> \<not> started \<and> KeepConn opts' = 0 \<or>
       started \<and> KeepConn opts' \<noteq> 0 \<and>
       warm_loop es (unat (KeepConn opts')) 0 (Pool_literal opts' idle busy) s2 = Return (None, p0, s1)"
    by blast
  from validate_caps(2) [OF v] assms(2) have k: "KeepConn opts' = 0" by simp
  with alt show ?thesis by (auto simp: Pool_literal_def)
qed

lemma watcher_before_cancel: "\<not> ctx_done s \<Longrightarrow> watcher p s = Return (p, s)"
  by (simp add: watcher_def)

text \<open>
  C5. The goroutine that is to close the pool on cancellation does not wait for the
  signal. With \<^verbatim>\<open>KeepConn = 0\<close>, \<^verbatim>\<open>NewPool\<close> returns before it starts one; a goroutine
  that runs while the context is not yet done takes the \<^verbatim>\<open>default\<close> case and ends,
  leaving the pool as it is; and no call but \<^verbatim>\<open>Close\<close> and no step but that goroutine's
  changes the closed flag, whether or not the context has been cancelled in between.
\<close>

theorem cancellation_not_watched:
  "(NewPool es opts s0 = Return (Inr (p0, started), s1) \<and> KeepConn opts = 0
      \<longrightarrow> \<not> started \<and> \<not> closed p0)
   \<and> (\<not> ctx_done s \<longrightarrow> watcher p s = Return (p, s))
   \<and> (run cs p s = Return (p', s') \<and> CallClose \<notin> set cs \<and> RunWatcher \<notin> set cs
      \<longrightarrow> closed p' = closed p)"
  using NewPool_no_watcher [of es opts s0 p0 started s1] watcher_before_cancel [of s p]
    run_closed [of cs p s p' s']
  by blast

theorem cancellation_not_watched_witness:
  "\<exists>p0 s1 p' s'.
     NewPool answers (opts12\<lparr>KeepConn := 0\<rparr>) store0 = Return (Inr (p0, False), s1) \<and>
     run [Cancel, CallGet (answers 1), CallStatus] p0 s1 = Return (p', s') \<and>
     ctx_done s' \<and> \<not> closed p'"
proof -
  have "\<exists>p0 s1. NewPool answers (opts12\<lparr>KeepConn := 0\<rparr>) store0 = Return (Inr (p0, False), s1)"
    by (simp add: pool_defs fixture_defs)
  then obtain p0 s1 where
    np: "NewPool answers (opts12\<lparr>KeepConn := 0\<rparr>) store0 = Return (Inr (p0, False), s1)"
    by blast
  have k: "KeepConn (opts12\<lparr>KeepConn := 0\<rparr>) = 0" by simp
  from np have "mu p0 = False"
    by (auto simp: pool_defs fixture_defs)
  then have "\<exists>p' s'. run [Cancel, CallGet (answers 1), CallStatus] p0 s1 = Return (p', s') \<and> ctx_done s'"
    by (simp add: Get_def Get_enter_def Get_done_def Status_def)
  then obtain p' s' where
    r: "run [Cancel, CallGet (answers 1), CallStatus] p0 s1 = Return (p', s')" and d: "ctx_done s'"
    by blast
  from cancellation_not_watched [of answers "opts12\<lparr>KeepConn := 0\<rparr>" store0 p0 False s1
      s1 p0 "[Cancel, CallGet (answers 1), CallStatus]" p' s'] np k r
  have "\<not> closed p'" by simp
  with np r d show ?thesis by blast
qed

subsection \<open>deleteByKey and Close leave the sets out of step\<close>

text \<open>
  C2. \<^verbatim>\<open>deleteByKey\<close> does not keep size, keys and map in step. In the pool with
  \<^verbatim>\<open>KeepConn = 1\<close> and \<^verbatim>\<open>Capacity = 2\<close>, after two \<^verbatim>\<open>Get\<close>s the busy set holds
  \<open>k0\<close> and \<open>k1\<close>; \<^verbatim>\<open>Put\<close> of the first leaves the busy set with size 1 and one map
  entry, but with two keys, the first of them the empty string.
\<close>

theorem deleteByKey_leaves_stray_key:
  "sets_of (run [CallGet (answers 1), CallGet (answers 1)] pool_warm store_warm)
     = Some (([], 0, []), ([''k0'', ''k1''], 2, [(''k0'', 0), (''k1'', 1)]), False, 0)
   \<and> sets_of (run [CallGet (answers 1), CallGet (answers 1), CallPut 9 0] pool_warm store_warm)
     = Some (([''k0''], 1, [(''k0'', 0)]), (['''', ''k1''], 1, [(''k1'', 1)]), False, 1)"
  by (simp add: pool_defs fixture_defs)

lemma conns_deleteByKey_length:
  assumes "map_of (map_heap s (conns cs)) key = Some conn"
    and "unat (csize cs - 1) \<le> max_int"
    and "conns_deleteByKey now key cs s = Return (cs', s')"
  shows "length (keys cs') = unat (csize cs') + length (filter (\<lambda>v. v \<noteq> key) (keys cs))"
  using assms(3) unfolding conns_deleteByKey_present [OF assms(1,2)] by auto

text \<open>
  C4. \<^verbatim>\<open>Close\<close> sets the closed flag, closes the handles of the idle map and deletes
  the idle keys from it, but assigns neither the idle set's key slice nor its size: in the
  pool just built with one idle connection, the map is empty afterwards and handle 100 is
  closed, while the keys are still \<open>[k0]\<close> and the size is still 1.
\<close>

theorem Close_keeps_keys_and_size:
  "sets_of (Close pool_warm store_warm) = Some (([''k0''], 1, []), ([], 0, []), True, 1)
   \<and> result_of (case Close pool_warm store_warm of
                   Return (p, s) \<Rightarrow> Status p s | Panic \<Rightarrow> Panic | Blocked \<Rightarrow> Blocked)
       = Some (snapshot (pool_warm\<lparr>closed := True\<rparr>))
   \<and> psSize (snapshot (pool_warm\<lparr>closed := True\<rparr>)) = 1"
  by (simp add: pool_defs fixture_defs)

lemma map_of_fold_delete:
  "map_of (fold AList.delete ks al) k = (if k \<in> set ks then None else map_of al k)"
  by (induction ks arbitrary: al) (auto simp: AList.delete_conv')

lemma Close_effect:
  assumes "\<not> mu p"
  shows "\<exists>s'. Close p s = Return (p\<lparr>closed := True\<rparr>, s') \<and>
     (\<forall>k a. map_of (map_heap s (conns (idleConn p))) k = Some a \<longrightarrow> DB (conn_heap s a) \<in> closed_dbs s') \<and>
     (\<forall>k \<in> set (keys (idleConn p)). map_of (map_heap s' (conns (idleConn p))) k = None)"
proof -
  define s' where "s' = snd (conns_close (idleConn p) s)"
  have p: "p\<lparr>closed := True, mu := False\<rparr> = p\<lparr>closed := True\<rparr>"
    using assms by (cases p) simp
  have c: "Close p s = Return (p\<lparr>closed := True\<rparr>, s')"
    using assms p by (simp add: Close_def conns_close_def Let_def s'_def)
  have d: "DB (conn_heap s a) \<in> closed_dbs s'"
    if "map_of (map_heap s (conns (idleConn p))) k = Some a" for k a
  proof -
    from that have "map_of (AList.clearjunk (map_heap s (conns (idleConn p)))) k = Some a"
      by (simp add: map_of_clearjunk)
    then have "(k, a) \<in> set (AList.clearjunk (map_heap s (conns (idleConn p))))"
      by (rule map_of_SomeD)
    then show ?thesis
      by (force simp: s'_def conns_close_def Let_def)
  qed
  have e: "map_of (map_heap s' (conns (idleConn p))) k = None" if "k \<in> set (keys (idleConn p))" for k
    using that by (simp add: s'_def conns_close_def Let_def map_of_fold_delete)
  from c d e show ?thesis by blast
qed

lemma Get_on_closed:
  "closed p \<Longrightarrow> \<not> mu p \<Longrightarrow>
   Get e p s = Return (Inl ErrGetFromClosedPool, p\<lparr>droppedGetCount := droppedGetCount p + 1\<rparr>, s)"
  by (cases p) (simp add: Get_def Get_enter_def Get_done_def Get_default_def)

subsection \<open>Put, and Get followed by Put\<close>

lemma Key_set_Updated [simp]: "Key (conn_heap (set_Updated now c s) a) = Key (conn_heap s a)"
  by (simp add: set_Updated_def)

lemma DB_set_Updated [simp]: "DB (conn_heap (set_Updated now c s) a) = DB (conn_heap s a)"
  by (simp add: set_Updated_def)

lemma UsageCounter_set_Updated [simp]:
  "UsageCounter (conn_heap (set_Updated now c s) a) = UsageCounter (conn_heap s a)"
  by (simp add: set_Updated_def)

lemma closed_dbs_set_Updated [simp]: "closed_dbs (set_Updated now c s) = closed_dbs s"
  by (simp add: set_Updated_def)

lemma Put_effect:
  assumes free: "\<not> mu p"
    and held: "map_of (map_heap s (conns (busyConn p))) (Key (conn_heap s conn)) = Some conn"
    and size: "unat (csize (busyConn p) - 1) \<le> max_int"
    and maps: "conns (idleConn p) \<noteq> conns (busyConn p)"
    and room: "csize (idleConn p) < keepConn p \<and> \<not> closed p \<longrightarrow> ch p < unat (capacity p)"
  shows "\<exists>p' s'. Put now conn p s = Return (p', s') \<and>
      map_of (map_heap s' (conns (busyConn p'))) (Key (conn_heap s conn)) = None \<and>
      csize (busyConn p') = csize (busyConn p) - 1 \<and>
      keys (busyConn p') = replicate (unat (csize (busyConn p) - 1)) []
          @ filter (\<lambda>k. k \<noteq> Key (conn_heap s conn)) (keys (busyConn p)) \<and>
      (if csize (idleConn p) < keepConn p \<and> \<not> closed p
       then keys (idleConn p') = keys (idleConn p) @ [Key (conn_heap s conn)] \<and>
            csize (idleConn p') = csize (idleConn p) + 1 \<and>
            map_of (map_heap s' (conns (idleConn p'))) (Key (conn_heap s conn)) = Some conn \<and>
            ch p' = Suc (ch p) \<and> closed_dbs s' = closed_dbs s
       else idleConn p' = idleConn p \<and>
            map_heap s' (conns (idleConn p)) = map_heap s (conns (idleConn p)) \<and>
            ch p' = ch p \<and>
            closed_dbs s' = insert (DB (conn_heap s conn)) (closed_dbs s)) \<and>
      (\<forall>a. UsageCounter (conn_heap s' a) = UsageCounter (conn_heap s a))"
proof (cases "csize (idleConn p) < keepConn p \<and> \<not> closed p")
  case True
  with room have "ch p < unat (capacity p)" by simp
  with True free maps show ?thesis
    by (simp add: Put_def conns_deleteByKey_present [OF held size] conns_put_def Let_def
        AList.update_conv' AList.delete_conv' set_Updated_def)
next
  case False
  then have "(if csize (idleConn p) < keepConn p \<and> \<not> closed p then x else y) = y" for x y :: "(Pool \<times> store) exec"
    by (rule if_not_P)
  with False free maps show ?thesis
    by (simp add: Put_def conns_deleteByKey_present [OF held size] AList.delete_conv' set_Updated_def)
qed


text \<open>
  C6. \<^verbatim>\<open>Put\<close> of a connection that the busy map holds under its key, on a pool whose
  mutex is free and whose busy size is between 1 and \<open>2^63\<close>: the key leaves the busy
  map and the busy size goes down by one (the busy keys are the kept keys behind
  \<^verbatim>\<open>size - 1\<close> empty strings, see C2). If the idle size is below \<^verbatim>\<open>keepConn\<close> and the
  pool is not closed, the connection is appended to the idle set and the channel gets one
  element, and no handle is closed; otherwise the idle set and the channel stay as they
  are and the connection's handle is closed. \<^verbatim>\<open>Put\<close> has no result, so no error: the
  call returns.
\<close>

theorem Put_release:
  assumes free: "\<not> mu p"
    and held: "map_of (map_heap s (conns (busyConn p))) (Key (conn_heap s conn)) = Some conn"
    and size: "unat (csize (busyConn p) - 1) \<le> max_int"
    and maps: "conns (idleConn p) \<noteq> conns (busyConn p)"
    and room: "csize (idleConn p) < keepConn p \<and> \<not> closed p \<longrightarrow> ch p < unat (capacity p)"
  shows "\<exists>p' s'. Put now conn p s = Return (p', s') \<and>
      map_of (map_heap s' (conns (busyConn p'))) (Key (conn_heap s conn)) = None \<and>
      csize (busyConn p') = csize (busyConn p) - 1 \<and>
      keys (busyConn p') = replicate (unat (csize (busyConn p) - 1)) []
          @ filter (\<lambda>k. k \<noteq> Key (conn_heap s conn)) (keys (busyConn p)) \<and>
      (if csize (idleConn p) < keepConn p \<and> \<not> closed p
       then keys (idleConn p') = keys (idleConn p) @ [Key (conn_heap s conn)] \<and>
            csize (idleConn p') = csize (idleConn p) + 1 \<and>
            map_of (map_heap s' (conns (idleConn p'))) (Key (conn_heap s conn)) = Some conn \<and>
            ch p' = Suc (ch p) \<and> closed_dbs s' = closed_dbs s
       else idleConn p' = idleConn p \<and>
            map_heap s' (conns (idleConn p)) = map_heap s (conns (idleConn p)) \<and>
            ch p' = ch p \<and>
            closed_dbs s' = insert (DB (conn_heap s conn)) (closed_dbs s))"
  using Put_effect [OF assms, of now] by blast

theorem Put_release_witness:
  "\<exists>p' s'. Put 9 0 pool_busy store_busy = Return (p', s') \<and>
     map_of (map_heap s' (conns (busyConn p'))) ''k0'' = None \<and>
     csize (busyConn p') = 0 \<and> keys (idleConn p') = [''k0''] \<and>
     map_of (map_heap s' (conns (idleConn p'))) ''k0'' = Some 0 \<and> ch p' = 1"
proof -
  have a: "\<not> mu pool_busy"
    and b: "map_of (map_heap store_busy (conns (busyConn pool_busy))) (Key (conn_heap store_busy 0)) = Some 0"
    and c: "unat (csize (busyConn pool_busy) - 1) \<le> max_int"
    and d: "conns (idleConn pool_busy) \<noteq> conns (busyConn pool_busy)"
    and e: "csize (idleConn pool_busy) < keepConn pool_busy \<and> \<not> closed pool_busy
        \<longrightarrow> ch pool_busy < unat (capacity pool_busy)"
    and f: "csize (idleConn pool_busy) < keepConn pool_busy \<and> \<not> closed pool_busy"
    and g: "Key (conn_heap store_busy 0) = ''k0''"
    by (simp_all add: fixture_defs max_int_def)
  from Put_release [OF a b c d e, of 9] f g show ?thesis
    by (auto simp: fixture_defs)
qed






subsection \<open>Status\<close>





text \<open>After a \<^verbatim>\<open>Get\<close> whose \<^verbatim>\<open>Open\<close> failed the mutex is held for ever: every later call
  blocks.\<close>

lemma locked_pool_blocks:
  "mu p \<Longrightarrow> Get e p s = Blocked \<and> Put now conn p s = Blocked \<and> Close p s = Blocked \<and>
     Status p s = Blocked"
  by (simp add: Get_def Get_enter_def Get_done_def Get_default_def Put_def Close_def Status_def)

end
